theory Spec2Isabelle
  imports Main
begin

section \<open>Rasters, grid cells and the neighbourhood tables\<close>

text \<open>
  A \<^verbatim>\<open>grid_cell\<close> holds its \<^verbatim>\<open>x\<close> and \<^verbatim>\<open>y\<close> coordinates
  (the selectors \<open>cx\<close> and \<open>cy\<close>). The cell with both coordinates -1 is the
  iteration marker of the two gradient procedures.
\<close>

datatype grid_cell = Cell (cx: int) (cy: int)

text \<open>
  \<^verbatim>\<open>Array2D<T>\<close>: the view dimensions, the NoData value and the stored values.
  The stored values are a function of the cell; the source reads and writes them only
  at cells for which \<^verbatim>\<open>in_grid\<close> holds (reads at a cell taken from a queue are
  checked in the model and end in \<open>OutOfGrid\<close>).
\<close>

record 'a Array2D =
  viewWidth :: int
  viewHeight :: int
  noData :: 'a
  cell :: "grid_cell \<Rightarrow> 'a"

definition in_grid :: "'a Array2D \<Rightarrow> grid_cell \<Rightarrow> bool" where
  "in_grid a c = (0 \<le> cx c \<and> cx c < viewWidth a \<and> 0 \<le> cy c \<and> cy c < viewHeight a)"

text \<open>
  Modelled from the spec: the offset tables \<^verbatim>\<open>dx[1..8]\<close>, \<^verbatim>\<open>dy[1..8]\<close> are declared
  in \<^verbatim>\<open>../common\<close>, which is not part of the sources at hand. The layout is the one the
  source draws above \<^verbatim>\<open>d8_masked_FlowDir\<close>:
  \<^verbatim>\<open>234 / 105 / 876\<close>, so index 1 is the western neighbour and the indices go
  clockwise; odd indices are the cardinal directions. Entry 0 is the cell itself.
\<close>

definition dx :: "int list" where
  "dx = [0, -1, -1, 0, 1, 1, 1, 0, -1]"

definition dy :: "int list" where
  "dy = [0, 0, -1, -1, -1, 0, 1, 1, 1]"

definition nbr :: "grid_cell \<Rightarrow> nat \<Rightarrow> grid_cell" where
  "nbr c n = Cell (cx c + dx ! n) (cy c + dy ! n)"

text \<open>The indices of \<^verbatim>\<open>for(int n=1;n<=8;n++)\<close>.\<close>

definition dirs :: "nat list" where
  "dirs = [1, 2, 3, 4, 5, 6, 7, 8]"

text \<open>
  Modelled from the spec: \<^verbatim>\<open>NO_FLOW\<close> is declared in \<^verbatim>\<open>../flowdirs/d8_flowdirs.hpp\<close>,
  which is not part of the sources at hand; it is a reserved value distinct from the
  direction indices 1..8. The proofs below use only that it is not positive.
\<close>

definition NO_FLOW :: int where
  "NO_FLOW = -1"

text \<open>The cells of a raster in the order of the nested loops over \<^verbatim>\<open>x\<close> and \<^verbatim>\<open>y\<close>.\<close>

definition all_cells :: "'a Array2D \<Rightarrow> grid_cell list" where
  "all_cells a =
     concat (map (\<lambda>x. map (\<lambda>y. Cell x y) [0..viewHeight a - 1]) [0..viewWidth a - 1])"

definition interior_cells :: "'a Array2D \<Rightarrow> grid_cell list" where
  "interior_cells a =
     concat (map (\<lambda>x. map (\<lambda>y. Cell x y) [1..viewHeight a - 2]) [1..viewWidth a - 2])"

text \<open>
  What can go wrong in the source: a read of a raster outside its view, an index into
  \<^verbatim>\<open>flat_height\<close> outside the vector, \<^verbatim>\<open>front()\<close> of an empty queue. Each is
  undefined behaviour in C++ and an error value here.
\<close>

datatype error = OutOfGrid | BadIndex | EmptyQueue

text \<open>
  A \<^verbatim>\<open>while(cond){ body }\<close> loop whose body can fail. Not returning is the value
  \<open>None\<close>.
\<close>

partial_function (option) while_loop ::
  "('s \<Rightarrow> bool) \<Rightarrow> ('s \<Rightarrow> error + 's) \<Rightarrow> 's \<Rightarrow> (error + 's) option" where
  "while_loop cont body s =
     (if cont s
      then (case body s of Inl e \<Rightarrow> Some (Inl e) | Inr s' \<Rightarrow> while_loop cont body s')
      else Some (Inr s))"

section \<open>d8_masked_FlowDir and d8_flow_flats\<close>

text \<open>One pass of the loop body of \<^verbatim>\<open>d8_masked_FlowDir\<close> for the neighbour index \<open>n\<close>;
  the state is \<^verbatim>\<open>(minimum_elevation, flowdir)\<close>.\<close>

definition masked_body ::
  "int Array2D \<Rightarrow> int Array2D \<Rightarrow> grid_cell \<Rightarrow> int \<times> int \<Rightarrow> nat \<Rightarrow> int \<times> int" where
  "masked_body flat_mask labels c st n =
     (let minimum_elevation = fst st; flowdir = snd st; nc = nbr c n in
      if cell labels nc \<noteq> cell labels c then st
      else if cell flat_mask nc < minimum_elevation
              \<or> (cell flat_mask nc = minimum_elevation \<and> flowdir > 0
                  \<and> flowdir mod 2 = 0 \<and> n mod 2 = 1)
      then (cell flat_mask nc, int n)
      else st)"

definition d8_masked_FlowDir :: "int Array2D \<Rightarrow> int Array2D \<Rightarrow> int \<Rightarrow> int \<Rightarrow> int" where
  "d8_masked_FlowDir flat_mask labels x y =
     snd (foldl (masked_body flat_mask labels (Cell x y)) (cell flat_mask (Cell x y), NO_FLOW) dirs)"

definition d8_flow_flats :: "int Array2D \<Rightarrow> int Array2D \<Rightarrow> int Array2D \<Rightarrow> int Array2D" where
  "d8_flow_flats flat_mask labels flowdirs =
     foldl (\<lambda>fd c.
        if cell flat_mask c = noData flat_mask then fd
        else if cell fd c = NO_FLOW
          then fd\<lparr>cell := (cell fd)(c := d8_masked_FlowDir flat_mask labels (cx c) (cy c))\<rparr>
          else fd)
       flowdirs (interior_cells flat_mask)"

section \<open>d8_flats_alter_dem\<close>

text \<open>
  The elevations that \<^verbatim>\<open>d8_flats_alter_dem\<close> raises are of a binary floating-point type
  \<^verbatim>\<open>U\<close>. A positive normal number of precision \<open>p\<close> (24 for \<^verbatim>\<open>float\<close>, 53 for
  \<^verbatim>\<open>double\<close>) is \<open>mant * 2 ^ expo\<close> with \<open>2 ^ (p - 1) \<le> mant < 2 ^ p\<close>. Zero, negative
  numbers, subnormal numbers, infinities and NaN are left out, and the exponent is not
  bounded.
\<close>

record fp =
  mant :: nat
  expo :: int

text \<open>The comparison \<^verbatim>\<open>a < b\<close> of two such numbers.\<close>

definition fp_less :: "fp \<Rightarrow> fp \<Rightarrow> bool" where
  "fp_less a b =
     (let e = min (expo a) (expo b) in
      mant a * 2 ^ nat (expo a - e) < mant b * 2 ^ nat (expo b - e))"

text \<open>The next representable number of precision \<open>p\<close> above \<open>a\<close>.\<close>

definition next_up :: "nat \<Rightarrow> fp \<Rightarrow> fp" where
  "next_up p a =
     (if mant a + 1 < 2 ^ p then a\<lparr>mant := mant a + 1\<rparr>
      else \<lparr>mant = 2 ^ (p - 1), expo = expo a + 1\<rparr>)"

text \<open>The conversion of a number of precision \<open>q\<close> to the precision \<open>p \<le> q\<close>, rounding to
  the nearest number, a tie to the even one; and the exact conversion back.\<close>

definition narrow :: "nat \<Rightarrow> nat \<Rightarrow> fp \<Rightarrow> fp" where
  "narrow p q a =
     (let k = q - p; m = mant a div 2 ^ k; r = mant a mod 2 ^ k;
          m' = (if 2 ^ k < 2 * r \<or> (2 * r = 2 ^ k \<and> odd m) then m + 1 else m)
      in if m' = 2 ^ p then \<lparr>mant = 2 ^ (p - 1), expo = expo a + int k + 1\<rparr>
         else \<lparr>mant = m', expo = expo a + int k\<rparr>)"

definition widen :: "nat \<Rightarrow> nat \<Rightarrow> fp \<Rightarrow> fp" where
  "widen p q a = \<lparr>mant = mant a * 2 ^ (q - p), expo = expo a - int (q - p)\<rparr>"

text \<open>The C library function \<^verbatim>\<open>nextafterf(x, +infinity)\<close>, on \<^verbatim>\<open>float\<close>.\<close>

definition nextafterf :: "fp \<Rightarrow> fp" where
  "nextafterf x = next_up 24 x"

text \<open>
  The statement \<^verbatim>\<open>elevations(x,y)=nextafterf(elevations(x,y),infinity)\<close> for a type
  \<^verbatim>\<open>U\<close> of precision \<open>q\<close>: the argument is converted to \<^verbatim>\<open>float\<close>, and the result is
  converted back to \<^verbatim>\<open>U\<close>.
\<close>

definition raise :: "nat \<Rightarrow> fp \<Rightarrow> fp" where
  "raise q v = widen 24 q (nextafterf (narrow 24 q v))"

text \<open>
  The body of the loops over the interior cells. The state is the elevations and the cells
  for which the message about an invalid alteration is written, one entry for each message.
\<close>

definition alter_body ::
  "nat \<Rightarrow> int Array2D \<Rightarrow> int Array2D \<Rightarrow> fp Array2D \<times> grid_cell list \<Rightarrow> grid_cell
     \<Rightarrow> fp Array2D \<times> grid_cell list" where
  "alter_body q flat_mask labels st c =
     (let elevations = fst st; messages = snd st in
      if cell labels c = 0 then st
      else
        (let higher = (\<lambda>n. fp_less (cell elevations (nbr c n)) (cell elevations c));
             raised = elevations\<lparr>cell := (cell elevations)
                        (c := (raise q ^^ nat (cell flat_mask c)) (cell elevations c))\<rparr>;
             invalid = filter (\<lambda>n. \<not> (cell labels (nbr c n) = cell labels c)
                                   \<and> \<not> fp_less (cell raised c) (cell raised (nbr c n))
                                   \<and> \<not> higher n) dirs
         in (raised, messages @ map (\<lambda>n. c) invalid)))"

definition d8_flats_alter_dem ::
  "nat \<Rightarrow> int Array2D \<Rightarrow> int Array2D \<Rightarrow> fp Array2D \<Rightarrow> fp Array2D \<times> grid_cell list" where
  "d8_flats_alter_dem q flat_mask labels elevations =
     foldl (alter_body q flat_mask labels) (elevations, []) (interior_cells flat_mask)"

section \<open>find_flat_edges\<close>

datatype edge_kind = LowEdge | HighEdge | NoEdge

text \<open>The inner loop over the neighbours of \<open>c\<close>, with its two \<^verbatim>\<open>break\<close>s.\<close>

fun scan_neighbours ::
  "'e::linorder Array2D \<Rightarrow> int Array2D \<Rightarrow> grid_cell \<Rightarrow> nat list \<Rightarrow> edge_kind" where
  "scan_neighbours elevations flowdirs c [] = NoEdge"
| "scan_neighbours elevations flowdirs c (n # ns) =
     (let nc = nbr c n in
      if \<not> in_grid flowdirs nc then scan_neighbours elevations flowdirs c ns
      else if cell flowdirs nc = noData flowdirs then scan_neighbours elevations flowdirs c ns
      else if cell flowdirs c \<noteq> NO_FLOW \<and> cell flowdirs nc = NO_FLOW
              \<and> cell elevations nc = cell elevations c then LowEdge
      else if cell flowdirs c = NO_FLOW \<and> cell elevations c < cell elevations nc then HighEdge
      else scan_neighbours elevations flowdirs c ns)"

text \<open>The body of the two outer loops for one cell; the state is
  \<^verbatim>\<open>(low_edges, high_edges)\<close>.\<close>

definition edge_body ::
  "'e::linorder Array2D \<Rightarrow> int Array2D \<Rightarrow> grid_cell list \<times> grid_cell list \<Rightarrow> grid_cell
     \<Rightarrow> grid_cell list \<times> grid_cell list" where
  "edge_body elevations flowdirs q c =
     (if cell flowdirs c = noData flowdirs then q
      else (case scan_neighbours elevations flowdirs c dirs of
              LowEdge \<Rightarrow> (fst q @ [c], snd q)
            | HighEdge \<Rightarrow> (fst q, snd q @ [c])
            | NoEdge \<Rightarrow> q))"

definition find_flat_edges ::
  "int Array2D \<Rightarrow> 'e::linorder Array2D \<Rightarrow> grid_cell list \<times> grid_cell list" where
  "find_flat_edges flowdirs elevations =
     foldl (edge_body elevations flowdirs) ([], []) (all_cells flowdirs)"

section \<open>label_this and the labelling loop\<close>

record label_state =
  to_fill :: "grid_cell list"
  lab :: "int Array2D"

definition label_body ::
  "'e::linorder Array2D \<Rightarrow> 'e \<Rightarrow> int \<Rightarrow> label_state \<Rightarrow> error + label_state" where
  "label_body elevations target_elevation label s =
     (case to_fill s of
        [] \<Rightarrow> Inl EmptyQueue
      | c # rest \<Rightarrow>
          if \<not> in_grid (lab s) c then Inl OutOfGrid
          else if cell elevations c \<noteq> target_elevation then Inr (s\<lparr>to_fill := rest\<rparr>)
          else if cell (lab s) c > 0 then Inr (s\<lparr>to_fill := rest\<rparr>)
          else Inr \<lparr>to_fill = rest @ filter (in_grid (lab s)) (map (nbr c) dirs),
                    lab = (lab s)\<lparr>cell := (cell (lab s))(c := label)\<rparr>\<rparr>)"

definition label_this ::
  "int \<Rightarrow> int \<Rightarrow> int \<Rightarrow> int Array2D \<Rightarrow> 'e::linorder Array2D \<Rightarrow> (error + int Array2D) option" where
  "label_this x0 y0 label labels elevations =
     map_option (map_sum id lab)
       (while_loop (\<lambda>s. length (to_fill s) > 0)
          (label_body elevations (cell elevations (Cell x0 y0)) label)
          \<lparr>to_fill = [Cell x0 y0], lab = labels\<rparr>)"

text \<open>The loop over \<^verbatim>\<open>low_edges\<close> in \<^verbatim>\<open>resolve_flats_barnes\<close>; the state is
  \<^verbatim>\<open>(group_number, labels)\<close>.\<close>

fun label_flats ::
  "'e::linorder Array2D \<Rightarrow> grid_cell list \<Rightarrow> int \<Rightarrow> int Array2D
     \<Rightarrow> (error + int \<times> int Array2D) option" where
  "label_flats elevations [] group_number labels = Some (Inr (group_number, labels))"
| "label_flats elevations (i # rest) group_number labels =
     (if \<not> in_grid labels i then Some (Inl OutOfGrid)
      else if cell labels i = 0
      then (case label_this (cx i) (cy i) group_number labels elevations of
              None \<Rightarrow> None
            | Some (Inl e) \<Rightarrow> Some (Inl e)
            | Some (Inr labels') \<Rightarrow> label_flats elevations rest (group_number + 1) labels')
      else label_flats elevations rest group_number labels)"

section \<open>BuildAwayGradient and BuildTowardsCombinedGradient\<close>

definition iteration_marker :: grid_cell where
  "iteration_marker = Cell (-1) (-1)"

record bfs_state =
  edges :: "grid_cell list"
  loops :: int
  flat_mask :: "int Array2D"
  flat_height :: "int list"

text \<open>The cells pushed for a dequeued cell \<open>c\<close>: the same in both procedures.\<close>

definition pushed :: "int Array2D \<Rightarrow> int Array2D \<Rightarrow> grid_cell \<Rightarrow> grid_cell list" where
  "pushed flowdirs labels c =
     filter (\<lambda>nc. in_grid labels nc \<and> cell labels nc = cell labels c
                  \<and> cell flowdirs nc = NO_FLOW)
       (map (nbr c) dirs)"

definition away_body :: "int Array2D \<Rightarrow> int Array2D \<Rightarrow> bfs_state \<Rightarrow> error + bfs_state" where
  "away_body flowdirs labels s =
     (case edges s of
        [] \<Rightarrow> Inl EmptyQueue
      | c # rest \<Rightarrow>
          if cx c = -1
          then Inr (s\<lparr>edges := rest @ [iteration_marker], loops := loops s + 1\<rparr>)
          else if \<not> (in_grid (flat_mask s) c \<and> in_grid labels c) then Inl OutOfGrid
          else if cell (flat_mask s) c > 0 then Inr (s\<lparr>edges := rest\<rparr>)
          else if \<not> (0 \<le> cell labels c \<and> cell labels c < int (length (flat_height s)))
            then Inl BadIndex
          else Inr \<lparr>edges = rest @ pushed flowdirs labels c,
                    loops = loops s,
                    flat_mask = (flat_mask s)\<lparr>cell := (cell (flat_mask s))(c := loops s)\<rparr>,
                    flat_height = (flat_height s)[nat (cell labels c) := loops s]\<rparr>)"

definition BuildAwayGradient ::
  "int Array2D \<Rightarrow> int Array2D \<Rightarrow> grid_cell list \<Rightarrow> int list \<Rightarrow> int Array2D
     \<Rightarrow> (error + bfs_state) option" where
  "BuildAwayGradient flowdirs flat_mask0 edges0 flat_height0 labels =
     while_loop (\<lambda>s. length (edges s) \<noteq> 1) (away_body flowdirs labels)
       \<lparr>edges = edges0 @ [iteration_marker], loops = 1,
        flat_mask = flat_mask0, flat_height = flat_height0\<rparr>"

definition towards_body :: "int Array2D \<Rightarrow> int Array2D \<Rightarrow> bfs_state \<Rightarrow> error + bfs_state" where
  "towards_body flowdirs labels s =
     (case edges s of
        [] \<Rightarrow> Inl EmptyQueue
      | c # rest \<Rightarrow>
          if cx c = -1
          then Inr (s\<lparr>edges := rest @ [iteration_marker], loops := loops s + 1\<rparr>)
          else if \<not> (in_grid (flat_mask s) c \<and> in_grid labels c) then Inl OutOfGrid
          else if cell (flat_mask s) c > 0 then Inr (s\<lparr>edges := rest\<rparr>)
          else if cell (flat_mask s) c \<noteq> 0
            then (if \<not> (0 \<le> cell labels c \<and> cell labels c < int (length (flat_height s)))
                  then Inl BadIndex
                  else Inr \<lparr>edges = rest @ pushed flowdirs labels c,
                            loops = loops s,
                            flat_mask = (flat_mask s)\<lparr>cell := (cell (flat_mask s))
                              (c := (flat_height s ! nat (cell labels c) + cell (flat_mask s) c)
                                      + 2 * loops s)\<rparr>,
                            flat_height = flat_height s\<rparr>)
          else Inr \<lparr>edges = rest @ pushed flowdirs labels c,
                    loops = loops s,
                    flat_mask = (flat_mask s)\<lparr>cell := (cell (flat_mask s))(c := 2 * loops s)\<rparr>,
                    flat_height = flat_height s\<rparr>)"

text \<open>The sign flip \<^verbatim>\<open>flat_mask(x,y)*=-1\<close> over the whole view.\<close>

definition negate_mask :: "int Array2D \<Rightarrow> int Array2D" where
  "negate_mask m = m\<lparr>cell := (\<lambda>c. if in_grid m c then - cell m c else cell m c)\<rparr>"

definition BuildTowardsCombinedGradient ::
  "int Array2D \<Rightarrow> int Array2D \<Rightarrow> grid_cell list \<Rightarrow> int list \<Rightarrow> int Array2D
     \<Rightarrow> (error + bfs_state) option" where
  "BuildTowardsCombinedGradient flowdirs flat_mask0 edges0 flat_height0 labels =
     while_loop (\<lambda>s. length (edges s) \<noteq> 1) (towards_body flowdirs labels)
       \<lparr>edges = edges0 @ [iteration_marker], loops = 1,
        flat_mask = negate_mask flat_mask0, flat_height = flat_height0\<rparr>"

section \<open>resolve_flats_barnes\<close>

text \<open>The diagnostics written to \<^verbatim>\<open>std::cerr\<close> that tell outcomes apart (progress and
  timing lines are left out).\<close>

datatype diagnostic = NoFlats | FlatsWithoutOutlets | NotAllFlatsHaveOutlets

record resolve_result =
  res_flat_mask :: "int Array2D"
  res_labels :: "int Array2D"
  res_diag :: "diagnostic list"

text \<open>
  Modelled from the spec: \<^verbatim>\<open>resize\<close>, \<^verbatim>\<open>init\<close> and \<^verbatim>\<open>setNoData\<close> of
  \<^verbatim>\<open>Array2D\<close> are not part of the sources at hand: \<open>resize\<close> takes the view
  dimensions of its argument, \<open>init v\<close> stores \<open>v\<close> in every cell, \<open>setNoData\<close>
  sets the NoData value. \<^verbatim>\<open>templateCopy\<close> copies metadata that the model does not hold.
\<close>

definition resize_init :: "'a Array2D \<Rightarrow> 'b Array2D \<Rightarrow> 'a \<Rightarrow> 'a Array2D" where
  "resize_init a other v =
     a\<lparr>viewWidth := viewWidth other, viewHeight := viewHeight other, cell := (\<lambda>c. v)\<rparr>"

definition resolve_flats_barnes ::
  "'e::linorder Array2D \<Rightarrow> int Array2D \<Rightarrow> int Array2D \<Rightarrow> int Array2D
     \<Rightarrow> (error + resolve_result) option" where
  "resolve_flats_barnes elevations flowdirs flat_mask_in labels_in =
     (let labels0 = resize_init labels_in flowdirs 0;
          flat_mask0 = (resize_init flat_mask_in elevations 0)\<lparr>noData := -1\<rparr>;
          (low_edges, high_edges) = find_flat_edges flowdirs elevations
      in if length low_edges = 0
         then Some (Inr \<lparr>res_flat_mask = flat_mask0, res_labels = labels0,
                         res_diag = (if length high_edges > 0 then [FlatsWithoutOutlets]
                                     else [NoFlats])\<rparr>)
         else
          (case label_flats elevations low_edges 1 labels0 of
             None \<Rightarrow> None
           | Some (Inl e) \<Rightarrow> Some (Inl e)
           | Some (Inr (group_number, labels)) \<Rightarrow>
              (let temp = filter (\<lambda>i. cell labels i \<noteq> 0) high_edges;
                   diag = (if length temp < length high_edges then [NotAllFlatsHaveOutlets]
                           else []);
                   flat_height0 = replicate (nat group_number) 0
               in case BuildAwayGradient flowdirs flat_mask0 temp flat_height0 labels of
                    None \<Rightarrow> None
                  | Some (Inl e) \<Rightarrow> Some (Inl e)
                  | Some (Inr a) \<Rightarrow>
                     (case BuildTowardsCombinedGradient flowdirs (flat_mask a) low_edges
                             (flat_height a) labels of
                        None \<Rightarrow> None
                      | Some (Inl e) \<Rightarrow> Some (Inl e)
                      | Some (Inr t) \<Rightarrow>
                          Some (Inr \<lparr>res_flat_mask = flat_mask t, res_labels = labels,
                                     res_diag = diag\<rparr>)))))"

section \<open>Notions used in the statements and proofs\<close>

text \<open>The number of cells of a raster whose value is not positive.\<close>

definition unset :: "int Array2D \<Rightarrow> nat" where
  "unset a = card {c. in_grid a c \<and> cell a c \<le> 0}"

text \<open>The states a loop passes through, from a starting state.\<close>

inductive steps :: "('s \<Rightarrow> bool) \<Rightarrow> ('s \<Rightarrow> error + 's) \<Rightarrow> 's \<Rightarrow> 's \<Rightarrow> bool"
  for cont body where
  steps_refl: "steps cont body s s"
| steps_step: "steps cont body s s1 \<Longrightarrow> cont s1 \<Longrightarrow> body s1 = Inr s2 \<Longrightarrow> steps cont body s s2"

text \<open>A raster given by its rows, top row first, for the concrete scenarios.\<close>

definition raster :: "int \<Rightarrow> int \<Rightarrow> 'a \<Rightarrow> 'a list list \<Rightarrow> 'a Array2D" where
  "raster w h nd rows =
     \<lparr>viewWidth = w, viewHeight = h, noData = nd,
      cell = (\<lambda>c. rows ! nat (cy c) ! nat (cx c))\<rparr>"

text \<open>The queue of a gradient procedure holds the cells of the current wavefront, the
  marker, and the cells pushed for the next wavefront.\<close>

definition cur_part :: "grid_cell list \<Rightarrow> grid_cell list" where
  "cur_part q = takeWhile (\<lambda>c. cx c \<noteq> -1) q"

definition nxt_part :: "grid_cell list \<Rightarrow> grid_cell list" where
  "nxt_part q = tl (dropWhile (\<lambda>c. cx c \<noteq> -1) q)"

definition wf_queue :: "int Array2D \<Rightarrow> grid_cell list \<Rightarrow> bool" where
  "wf_queue L q =
     (\<exists>cur nxt. q = cur @ iteration_marker # nxt \<and> (\<forall>c\<in>set cur \<union> set nxt. in_grid L c))"

text \<open>Every label is an index into a vector of length \<open>n\<close>.\<close>

definition labels_in_range :: "int Array2D \<Rightarrow> nat \<Rightarrow> bool" where
  "labels_in_range L n = (\<forall>c. 0 \<le> cell L c \<and> cell L c < int n)"

text \<open>The measure that decreases in every pass of a gradient loop: an assignment makes a
  cell positive and pushes at most 8 cells, a skipped cell leaves the queue, and the marker
  moves from the front to the back.\<close>

definition bfs_measure :: "bfs_state \<Rightarrow> nat" where
  "bfs_measure s =
     16 * unset (flat_mask s) + 2 * length (edges s)
       + (if edges s \<noteq> [] \<and> cx (hd (edges s)) = -1 then 1 else 0)"

text \<open>The invariants of the two gradient loops that make the loop bodies succeed: the
  dimensions, the shape of the queue, the length of \<^verbatim>\<open>flat_height\<close>, and what has been
  written to the mask \<open>M0\<close> (or \<open>Ms\<close>) with which the loop started.\<close>

definition away_inv1 :: "int Array2D \<Rightarrow> int Array2D \<Rightarrow> nat \<Rightarrow> bfs_state \<Rightarrow> bool" where
  "away_inv1 L M0 n s =
     (viewWidth (flat_mask s) = viewWidth L \<and> viewHeight (flat_mask s) = viewHeight L
      \<and> noData (flat_mask s) = noData M0
      \<and> wf_queue L (edges s) \<and> 1 \<le> loops s \<and> length (flat_height s) = n
      \<and> labels_in_range L n
      \<and> (\<forall>c. cell (flat_mask s) c = cell M0 c
              \<or> (in_grid L c \<and> cell M0 c \<le> 0 \<and> 0 < cell (flat_mask s) c
                  \<and> cell (flat_mask s) c \<le> loops s))
      \<and> (\<forall>c. cell M0 c \<le> 0 \<longrightarrow> 0 < cell (flat_mask s) c
              \<longrightarrow> cell (flat_mask s) c \<le> flat_height s ! nat (cell L c)))"

definition tow_inv1 :: "int Array2D \<Rightarrow> int Array2D \<Rightarrow> int list \<Rightarrow> bfs_state \<Rightarrow> bool" where
  "tow_inv1 L Ms H s =
     (viewWidth (flat_mask s) = viewWidth L \<and> viewHeight (flat_mask s) = viewHeight L
      \<and> noData (flat_mask s) = noData Ms
      \<and> wf_queue L (edges s) \<and> 1 \<le> loops s \<and> flat_height s = H
      \<and> labels_in_range L (length H)
      \<and> (\<forall>c. cell (flat_mask s) c = cell Ms c
              \<or> (in_grid L c \<and> cell Ms c \<le> 0 \<and> 0 < cell (flat_mask s) c))
      \<and> (\<forall>c. cell (flat_mask s) c < 0 \<longrightarrow> 0 \<le> H ! nat (cell L c) + cell (flat_mask s) c))"

text \<open>The value that \<^verbatim>\<open>BuildTowardsCombinedGradient\<close> writes to a cell whose mask is
  \<open>v\<close> (not positive) when the wavefront counter is \<open>B\<close>.\<close>

definition towards_value :: "int list \<Rightarrow> int Array2D \<Rightarrow> grid_cell \<Rightarrow> int \<Rightarrow> int \<Rightarrow> int" where
  "towards_value H L c v B = (if v \<noteq> 0 then (H ! nat (cell L c) + v) + 2 * B else 2 * B)"

text \<open>The measure and the invariant of the loop of \<^verbatim>\<open>label_this\<close>, for the target
  elevation, the label and the labels \<open>L0\<close> with which it started.\<close>

definition label_measure :: "label_state \<Rightarrow> nat" where
  "label_measure s = 8 * unset (lab s) + length (to_fill s)"

definition label_inv1 ::
  "'e::linorder Array2D \<Rightarrow> 'e \<Rightarrow> int \<Rightarrow> int Array2D \<Rightarrow> grid_cell \<Rightarrow> label_state \<Rightarrow> bool" where
  "label_inv1 E target label L0 seed s =
     (viewWidth (lab s) = viewWidth L0 \<and> viewHeight (lab s) = viewHeight L0
      \<and> noData (lab s) = noData L0
      \<and> (\<forall>c\<in>set (to_fill s). in_grid L0 c)
      \<and> (\<forall>c. cell (lab s) c = cell L0 c
              \<or> (in_grid L0 c \<and> cell L0 c \<le> 0 \<and> cell (lab s) c = label \<and> cell E c = target))
      \<and> ((seed \<in> set (to_fill s) \<and> cell (lab s) seed = cell L0 seed) \<or> cell (lab s) seed = label)
      \<and> (\<forall>c\<in>set (to_fill s). c = seed
              \<or> (\<exists>p k. k \<in> set dirs \<and> c = nbr p k \<and> in_grid L0 p \<and> cell L0 p \<le> 0
                       \<and> cell (lab s) p = label)))"

text \<open>The invariant of the labelling loop of \<^verbatim>\<open>resolve_flats_barnes\<close>: the labels in
  use are \<open>1, ..., g - 1\<close>, each is carried by a cell of the grid, and the cells of one
  label have one elevation.\<close>

definition labelling_inv :: "'e::linorder Array2D \<Rightarrow> int \<Rightarrow> int Array2D \<Rightarrow> bool" where
  "labelling_inv E g L =
     (1 \<le> g \<and> (\<forall>c. 0 \<le> cell L c \<and> cell L c < g)
      \<and> (\<forall>l. 1 \<le> l \<and> l < g \<longrightarrow> (\<exists>c. in_grid L c \<and> cell L c = l))
      \<and> (\<forall>c d. 0 < cell L c \<and> cell L c = cell L d \<longrightarrow> cell E c = cell E d)
      \<and> (\<forall>c. 0 < cell L c \<longrightarrow> in_grid L c))"

text \<open>What one flood fill with the label \<open>g\<close> from the seed \<open>i\<close> makes of the labels.\<close>

definition filled :: "'e::linorder Array2D \<Rightarrow> grid_cell \<Rightarrow> int \<Rightarrow> int Array2D \<Rightarrow> int Array2D \<Rightarrow> bool" where
  "filled E i g L L' =
     (label_this (cx i) (cy i) g L E = Some (Inr L')
      \<and> viewWidth L' = viewWidth L \<and> viewHeight L' = viewHeight L \<and> noData L' = noData L
      \<and> (\<forall>c. cell L' c = cell L c
              \<or> (in_grid L c \<and> cell L c \<le> 0 \<and> cell L' c = g \<and> cell E c = cell E i))
      \<and> cell L' i = g)"

text \<open>The cells that \<^verbatim>\<open>find_flat_edges\<close> puts into its two queues.\<close>

definition is_low_edge :: "'e::linorder Array2D \<Rightarrow> int Array2D \<Rightarrow> grid_cell \<Rightarrow> bool" where
  "is_low_edge E F c =
     (cell F c \<noteq> noData F \<and> cell F c \<noteq> NO_FLOW
      \<and> (\<exists>n\<in>set dirs. in_grid F (nbr c n) \<and> cell F (nbr c n) \<noteq> noData F
             \<and> cell F (nbr c n) = NO_FLOW \<and> cell E (nbr c n) = cell E c))"

definition is_high_edge :: "'e::linorder Array2D \<Rightarrow> int Array2D \<Rightarrow> grid_cell \<Rightarrow> bool" where
  "is_high_edge E F c =
     (cell F c \<noteq> noData F \<and> cell F c = NO_FLOW
      \<and> (\<exists>n\<in>set dirs. in_grid F (nbr c n) \<and> cell F (nbr c n) \<noteq> noData F
             \<and> cell E c < cell E (nbr c n)))"

text \<open>The names of the stages of \<^verbatim>\<open>resolve_flats_barnes\<close>.\<close>

abbreviation low_edges_of :: "'e::linorder Array2D \<Rightarrow> int Array2D \<Rightarrow> grid_cell list" where
  "low_edges_of E F \<equiv> fst (find_flat_edges F E)"

abbreviation high_edges_of :: "'e::linorder Array2D \<Rightarrow> int Array2D \<Rightarrow> grid_cell list" where
  "high_edges_of E F \<equiv> snd (find_flat_edges F E)"

abbreviation pruned_high_edges ::
  "'e::linorder Array2D \<Rightarrow> int Array2D \<Rightarrow> int Array2D \<Rightarrow> grid_cell list" where
  "pruned_high_edges E F L \<equiv> filter (\<lambda>i. cell L i \<noteq> 0) (high_edges_of E F)"

abbreviation initial_labels :: "int Array2D \<Rightarrow> int Array2D \<Rightarrow> int Array2D" where
  "initial_labels L_in F \<equiv> resize_init L_in F 0"

abbreviation initial_mask :: "int Array2D \<Rightarrow> 'e Array2D \<Rightarrow> int Array2D" where
  "initial_mask M_in E \<equiv> (resize_init M_in E 0)\<lparr>noData := -1\<rparr>"

text \<open>The states in which the two gradient loops start.\<close>

abbreviation away_start :: "grid_cell list \<Rightarrow> int Array2D \<Rightarrow> int list \<Rightarrow> bfs_state" where
  "away_start edges0 M0 H0 \<equiv>
     \<lparr>edges = edges0 @ [iteration_marker], loops = 1, flat_mask = M0, flat_height = H0\<rparr>"

abbreviation towards_start :: "grid_cell list \<Rightarrow> int Array2D \<Rightarrow> int list \<Rightarrow> bfs_state" where
  "towards_start edges0 M0 H0 \<equiv>
     \<lparr>edges = edges0 @ [iteration_marker], loops = 1, flat_mask = negate_mask M0,
      flat_height = H0\<rparr>"

abbreviation bfs_cont :: "bfs_state \<Rightarrow> bool" where
  "bfs_cont \<equiv> (\<lambda>s. length (edges s) \<noteq> 1)"

text \<open>\<open>K\<close>: the number of distinct positive labels in the label raster.\<close>

definition label_count :: "int Array2D \<Rightarrow> nat" where
  "label_count L = length (remdups (filter (\<lambda>l. 0 < l) (map (cell L) (all_cells L))))"

text \<open>
  \<open>hops F L S k c\<close>: the cell \<open>c\<close> is reached from a seed in \<open>S\<close> by \<open>k\<close> hops, each to
  an 8-neighbour in the grid that has the label of the cell it leaves and the direction
  \<^verbatim>\<open>NO_FLOW\<close> (the cells the gradient procedures push).
\<close>

inductive hops :: "int Array2D \<Rightarrow> int Array2D \<Rightarrow> grid_cell set \<Rightarrow> nat \<Rightarrow> grid_cell \<Rightarrow> bool"
  for F L S where
  hops_seed: "c \<in> S \<Longrightarrow> hops F L S 0 c"
| hops_step: "hops F L S k p \<Longrightarrow> n \<in> set (pushed F L p) \<Longrightarrow> hops F L S (Suc k) n"

text \<open>The parts of the invariant of the loop of \<^verbatim>\<open>BuildAwayGradient\<close>, over the mask
  \<open>M\<close>, the two parts of the queue and the counter \<open>lp\<close>.\<close>

definition away_lip ::
  "int Array2D \<Rightarrow> int Array2D \<Rightarrow> (grid_cell \<Rightarrow> int) \<Rightarrow> grid_cell list \<Rightarrow> grid_cell list \<Rightarrow> int \<Rightarrow> bool" where
  "away_lip F L M cur nxt lp =
     (\<forall>p n. 0 < M p \<longrightarrow> n \<in> set (pushed F L p) \<longrightarrow>
        (0 < M n \<and> M n \<le> M p + 1)
        \<or> (M n \<le> 0 \<and> ((M p = lp \<and> n \<in> set nxt) \<or> (M p + 1 = lp \<and> n \<in> set cur))))"

definition away_sound ::
  "int Array2D \<Rightarrow> int Array2D \<Rightarrow> grid_cell set \<Rightarrow> (grid_cell \<Rightarrow> int) \<Rightarrow> grid_cell list
     \<Rightarrow> grid_cell list \<Rightarrow> int \<Rightarrow> bool" where
  "away_sound F L S M cur nxt lp =
     ((\<forall>c. 0 < M c \<longrightarrow> hops F L S (nat (M c - 1)) c)
      \<and> (\<forall>c\<in>set cur. hops F L S (nat (lp - 1)) c)
      \<and> (\<forall>c\<in>set nxt. hops F L S (nat lp) c))"

definition away_min ::
  "int Array2D \<Rightarrow> int Array2D \<Rightarrow> grid_cell set \<Rightarrow> (grid_cell \<Rightarrow> int) \<Rightarrow> grid_cell list
     \<Rightarrow> int \<Rightarrow> bool" where
  "away_min F L S M cur lp =
     (\<forall>k c. hops F L S k c \<longrightarrow> int k + 1 \<le> lp \<longrightarrow>
        (0 < M c \<and> M c \<le> int k + 1) \<or> (int k + 1 = lp \<and> c \<in> set cur))"

definition away_height ::
  "int Array2D \<Rightarrow> (grid_cell \<Rightarrow> int) \<Rightarrow> int list \<Rightarrow> int list \<Rightarrow> bool" where
  "away_height L M H H0 =
     (\<forall>l. 0 \<le> l \<longrightarrow> l < int (length H) \<longrightarrow>
        (H ! nat l = H0 ! nat l \<and> (\<forall>c. cell L c = l \<longrightarrow> M c \<le> 0))
        \<or> (\<exists>c. cell L c = l \<and> 0 < M c \<and> M c = H ! nat l))"

definition away_inv2 ::
  "int Array2D \<Rightarrow> int Array2D \<Rightarrow> grid_cell set \<Rightarrow> int list \<Rightarrow> bfs_state \<Rightarrow> bool" where
  "away_inv2 F L S H0 s =
     (away_lip F L (cell (flat_mask s)) (cur_part (edges s)) (nxt_part (edges s)) (loops s)
      \<and> away_sound F L S (cell (flat_mask s)) (cur_part (edges s)) (nxt_part (edges s)) (loops s)
      \<and> away_min F L S (cell (flat_mask s)) (cur_part (edges s)) (loops s)
      \<and> away_height L (cell (flat_mask s)) (flat_height s) H0)"

text \<open>The parts of the invariant of the loop of \<^verbatim>\<open>BuildTowardsCombinedGradient\<close>. \<open>M1\<close>
  is the mask after the sign flip, \<open>S\<close> the set of seeds.\<close>

definition tow_value ::
  "int Array2D \<Rightarrow> int Array2D \<Rightarrow> int list \<Rightarrow> grid_cell set \<Rightarrow> int Array2D
     \<Rightarrow> (grid_cell \<Rightarrow> int) \<Rightarrow> int \<Rightarrow> bool" where
  "tow_value F L H S M1 M lp =
     (\<forall>c. 0 < M c \<longrightarrow>
        (\<exists>B. 1 \<le> B \<and> B \<le> lp \<and> M c = towards_value H L c (cell M1 c) B
             \<and> ((B = 1 \<and> c \<in> S)
                 \<or> (2 \<le> B \<and> (\<exists>p. c \<in> set (pushed F L p) \<and> 0 < M p
                                  \<and> M p = towards_value H L p (cell M1 p) (B - 1))))))"

definition tow_queue ::
  "int Array2D \<Rightarrow> int Array2D \<Rightarrow> int list \<Rightarrow> grid_cell set \<Rightarrow> int Array2D
     \<Rightarrow> (grid_cell \<Rightarrow> int) \<Rightarrow> grid_cell list \<Rightarrow> grid_cell list \<Rightarrow> int \<Rightarrow> bool" where
  "tow_queue F L H S M1 M cur nxt lp =
     ((\<forall>c\<in>set cur. (lp = 1 \<and> c \<in> S)
          \<or> (2 \<le> lp \<and> (\<exists>p. c \<in> set (pushed F L p) \<and> 0 < M p
                            \<and> M p = towards_value H L p (cell M1 p) (lp - 1))))
      \<and> (\<forall>c\<in>set nxt. \<exists>p. c \<in> set (pushed F L p) \<and> 0 < M p
                            \<and> M p = towards_value H L p (cell M1 p) lp))"

definition tow_reach ::
  "int Array2D \<Rightarrow> int Array2D \<Rightarrow> grid_cell set \<Rightarrow> (grid_cell \<Rightarrow> int) \<Rightarrow> grid_cell list
     \<Rightarrow> grid_cell list \<Rightarrow> bool" where
  "tow_reach F L S M cur nxt =
     ((\<forall>c\<in>S. 0 < M c \<or> c \<in> set cur)
      \<and> (\<forall>p n. 0 < M p \<longrightarrow> n \<in> set (pushed F L p) \<longrightarrow> 0 < M n \<or> n \<in> set cur \<union> set nxt))"

definition tow_labelled ::
  "int Array2D \<Rightarrow> (grid_cell \<Rightarrow> int) \<Rightarrow> grid_cell list \<Rightarrow> grid_cell list \<Rightarrow> bool" where
  "tow_labelled L M cur nxt =
     ((\<forall>c. 0 < M c \<longrightarrow> 0 < cell L c) \<and> (\<forall>c\<in>set cur \<union> set nxt. 0 < cell L c))"

definition tow_inv2 ::
  "int Array2D \<Rightarrow> int Array2D \<Rightarrow> int list \<Rightarrow> grid_cell set \<Rightarrow> int Array2D \<Rightarrow> bfs_state \<Rightarrow> bool" where
  "tow_inv2 F L H S M1 s =
     (tow_value F L H S M1 (cell (flat_mask s)) (loops s)
      \<and> tow_queue F L H S M1 (cell (flat_mask s)) (cur_part (edges s)) (nxt_part (edges s)) (loops s)
      \<and> tow_reach F L S (cell (flat_mask s)) (cur_part (edges s)) (nxt_part (edges s))
      \<and> tow_labelled L (cell (flat_mask s)) (cur_part (edges s)) (nxt_part (edges s)))"

text \<open>
  \<open>treach F L S c\<close>: the cell \<open>c\<close> is a labelled seed in \<open>S\<close>, or it is reached from one
  by hops to cells that the gradient procedures push.
\<close>

inductive treach :: "int Array2D \<Rightarrow> int Array2D \<Rightarrow> grid_cell set \<Rightarrow> grid_cell \<Rightarrow> bool"
  for F L S where
  treach_seed: "c \<in> S \<Longrightarrow> 0 < cell L c \<Longrightarrow> treach F L S c"
| treach_step: "treach F L S p \<Longrightarrow> n \<in> set (pushed F L p) \<Longrightarrow> treach F L S n"

text \<open>
  A precondition on the inputs of \<^verbatim>\<open>resolve_flats_barnes\<close>. The flow directions come
  from \<^verbatim>\<open>d8_flow_directions\<close> (declared in \<^verbatim>\<open>../flowdirs/d8_flowdirs.hpp\<close>, not
  part of the sources at hand), which by the spec sets a direction or \<^verbatim>\<open>NO_FLOW\<close> for
  each cell that is not NoData. So the flow directions and the elevations agree on NoData:
  a cell has the NoData direction exactly when it has the NoData elevation, and
  \<^verbatim>\<open>NO_FLOW\<close> is not the NoData direction.
\<close>

definition nodata_consistent :: "'e::linorder Array2D \<Rightarrow> int Array2D \<Rightarrow> bool" where
  "nodata_consistent E F =
     (noData F \<noteq> NO_FLOW
      \<and> (\<forall>c\<in>set (all_cells F). (cell F c = noData F) = (cell E c = noData E)))"

text \<open>Every labelled cell without a flow direction is reached from a low-edge seed.\<close>

definition label_inv2 :: "int Array2D \<Rightarrow> grid_cell set \<Rightarrow> int Array2D \<Rightarrow> bool" where
  "label_inv2 F S L =
     (\<forall>c. in_grid L c \<longrightarrow> 0 < cell L c \<longrightarrow> cell F c = NO_FLOW \<longrightarrow> treach F L S c)"

definition flat_reached :: "'e::linorder Array2D \<Rightarrow> int Array2D \<Rightarrow> int Array2D \<Rightarrow> bool" where
  "flat_reached E F L =
     (label_inv2 F (set (low_edges_of E F)) L
      \<and> (\<forall>c. 0 < cell L c \<longrightarrow> (\<exists>i\<in>set (low_edges_of E F). cell L i = cell L c)))"

text \<open>The three stages of \<^verbatim>\<open>resolve_flats_barnes\<close> after the edge scan, with their
  results: the group number and labels, the state in which \<^verbatim>\<open>BuildAwayGradient\<close> ends
  and the state in which \<^verbatim>\<open>BuildTowardsCombinedGradient\<close> ends.\<close>

definition stages ::
  "'e::linorder Array2D \<Rightarrow> int Array2D \<Rightarrow> int Array2D \<Rightarrow> int Array2D
     \<Rightarrow> int \<Rightarrow> int Array2D \<Rightarrow> bfs_state \<Rightarrow> bfs_state \<Rightarrow> bool" where
  "stages E F M_in L_in g L a t =
     (label_flats E (low_edges_of E F) 1 (initial_labels L_in F) = Some (Inr (g, L))
      \<and> BuildAwayGradient F (initial_mask M_in E) (pruned_high_edges E F L)
          (replicate (nat g) 0) L = Some (Inr a)
      \<and> BuildTowardsCombinedGradient F (flat_mask a) (low_edges_of E F) (flat_height a) L
          = Some (Inr t))"

text \<open>What is known of the results of the stages.\<close>

definition stage_facts ::
  "'e::linorder Array2D \<Rightarrow> int Array2D \<Rightarrow> int Array2D
     \<Rightarrow> int \<Rightarrow> int Array2D \<Rightarrow> bfs_state \<Rightarrow> bfs_state \<Rightarrow> bool" where
  "stage_facts E F M0 g L a t =
     (labelling_inv E g L \<and> viewWidth L = viewWidth F \<and> viewHeight L = viewHeight F
      \<and> (\<forall>i\<in>set (low_edges_of E F). 0 < cell L i)
      \<and> (nodata_consistent E F \<longrightarrow> flat_reached E F L)
      \<and> away_inv1 L M0 (nat g) a
      \<and> away_inv2 F L (set (pruned_high_edges E F L)) (replicate (nat g) 0) a
      \<and> cur_part (edges a) = [] \<and> nxt_part (edges a) = []
      \<and> tow_inv1 L (negate_mask (flat_mask a)) (flat_height a) t
      \<and> tow_inv2 F L (flat_height a) (set (low_edges_of E F)) (negate_mask (flat_mask a)) t
      \<and> cur_part (edges t) = [] \<and> nxt_part (edges t) = [])"

text \<open>
  The cell \<open>c\<close> drains: it has an 8-neighbour in its flat with a strictly lower mask, or an
  8-neighbour outside its flat at a strictly lower elevation.
\<close>

definition drains :: "'e::linorder Array2D \<Rightarrow> int Array2D \<Rightarrow> int Array2D \<Rightarrow> grid_cell \<Rightarrow> bool" where
  "drains E L M c =
     ((\<exists>k\<in>set dirs. in_grid L (nbr c k) \<and> cell L (nbr c k) = cell L c
                     \<and> cell M (nbr c k) < cell M c)
      \<or> (\<exists>k\<in>set dirs. in_grid L (nbr c k) \<and> cell L (nbr c k) \<noteq> cell L c
                     \<and> cell E (nbr c k) < cell E c))"

text \<open>\<open>k\<close> is the least number of hops in which \<open>c\<close> is reached from the seeds \<open>S\<close>.\<close>

definition min_hops :: "int Array2D \<Rightarrow> int Array2D \<Rightarrow> grid_cell set \<Rightarrow> grid_cell \<Rightarrow> nat \<Rightarrow> bool" where
  "min_hops F L S c k = (hops F L S k c \<and> (\<forall>j. hops F L S j c \<longrightarrow> k \<le> j))"

section \<open>Concrete rasters\<close>

text \<open>Scenario S3 of the specification: a flat of nine cells enclosed by higher terrain.
  The flow directions are those of steepest descent: the border cells flow into the flat.\<close>

definition E_pit :: "int Array2D" where
  "E_pit = raster 5 5 (-9999)
     [[9,9,9,9,9],[9,5,5,5,9],[9,5,5,5,9],[9,5,5,5,9],[9,9,9,9,9]]"

definition F_pit :: "int Array2D" where
  "F_pit = raster 5 5 (-100)
     [[6,7,7,7,8],[5,-1,-1,-1,1],[5,-1,-1,-1,1],[5,-1,-1,-1,1],[4,3,3,3,2]]"

definition empty_raster :: "int Array2D" where
  "empty_raster = raster 0 0 0 []"

text \<open>Scenario S5: the centre cell has the mask 5; its neighbours 2 (north-west), 3 (north)
  and 5 (east) share the least mask 2.\<close>

definition M_tie :: "int Array2D" where
  "M_tie = raster 3 3 (-1) [[2,2,7],[3,5,2],[7,7,7]]"

definition L_tie :: "int Array2D" where
  "L_tie = raster 3 3 0 [[1,1,1],[1,1,1],[1,1,1]]"

definition F_tie :: "int Array2D" where
  "F_tie = raster 3 3 (-100) [[6,7,8],[5,-1,1],[4,3,2]]"

text \<open>Scenario S2: a flat of nine cells that drains to the east. The directions are those
  of steepest descent; the cell of elevation 1 has no lower neighbour.\<close>

definition E_s2 :: "int Array2D" where
  "E_s2 = raster 5 5 (-9999)
     [[9,9,9,9,9],[9,5,5,5,9],[9,5,5,5,1],[9,5,5,5,9],[9,9,9,9,9]]"

definition F_s2 :: "int Array2D" where
  "F_s2 = raster 5 5 (-100)
     [[6,7,7,7,8],[5,-1,-1,6,7],[5,-1,-1,5,-1],[5,-1,-1,4,3],[4,3,3,3,2]]"

text \<open>A flat of one cell: a raster of 3 by 3 cells of the \<^verbatim>\<open>double\<close> 1.0, with the mask
  1 and the label 1 at its centre.\<close>

definition one_double :: fp where
  "one_double = \<lparr>mant = 2 ^ 52, expo = -52\<rparr>"

definition E_one :: "fp Array2D" where
  "E_one = \<lparr>viewWidth = 3, viewHeight = 3, noData = \<lparr>mant = 0, expo = 0\<rparr>,
            cell = (\<lambda>c. one_double)\<rparr>"

definition M_one :: "int Array2D" where
  "M_one = raster 3 3 (-1) [[0, 0, 0], [0, 1, 0], [0, 0, 0]]"

definition L_one :: "int Array2D" where
  "L_one = raster 3 3 0 [[0, 0, 0], [0, 1, 0], [0, 0, 0]]"

text \<open>A flat that reaches the border of the raster: the cells \<open>(0, 0)\<close>, \<open>(1, 0)\<close> and
  \<open>(2, 1)\<close> have the elevation 5, all others the elevation 9. The border cells have the
  directions that point out of the raster, the cell \<open>(1, 1)\<close> flows north to \<open>(1, 0)\<close>,
  and the cell \<open>(2, 1)\<close> has no lower neighbour.\<close>

definition E_rim :: "int Array2D" where
  "E_rim = raster 4 3 (-9999) [[5,5,9,9],[9,9,5,9],[9,9,9,9]]"

definition F_rim :: "int Array2D" where
  "F_rim = raster 4 3 (-100) [[2,3,3,4],[1,3,-1,5],[8,7,7,6]]"

section \<open>Basic facts\<close>

subsection \<open>Grid facts\<close>

lemma in_grid_upd [simp]: "in_grid (a\<lparr>cell := f\<rparr>) c = in_grid a c"
  by (simp add: in_grid_def)

lemma in_grid_cong: "viewWidth a = viewWidth b \<Longrightarrow> viewHeight a = viewHeight b \<Longrightarrow> in_grid a = in_grid b"
  by (auto simp: in_grid_def fun_eq_iff)

lemma finite_in_grid: "finite {c. in_grid a c}"
proof -
  have "{c. in_grid a c} \<subseteq> (\<lambda>p. Cell (fst p) (snd p)) ` ({0..viewWidth a} \<times> {0..viewHeight a})"
  proof
    fix c assume "c \<in> {c. in_grid a c}"
    then have "(cx c, cy c) \<in> {0..viewWidth a} \<times> {0..viewHeight a}"
      by (auto simp: in_grid_def)
    then show "c \<in> (\<lambda>p. Cell (fst p) (snd p)) ` ({0..viewWidth a} \<times> {0..viewHeight a})"
      by (rule rev_image_eqI) simp
  qed
  then show ?thesis by (rule finite_subset) simp
qed

lemma set_all_cells: "set (all_cells a) = {c. in_grid a c}"
proof (rule set_eqI)
  fix c show "c \<in> set (all_cells a) \<longleftrightarrow> c \<in> {c. in_grid a c}"
    by (cases c) (auto simp: all_cells_def in_grid_def image_iff)
qed

lemma set_interior_cells:
  "set (interior_cells a) = {c. 1 \<le> cx c \<and> cx c \<le> viewWidth a - 2 \<and> 1 \<le> cy c \<and> cy c \<le> viewHeight a - 2}"
proof (rule set_eqI)
  fix c
  show "c \<in> set (interior_cells a) \<longleftrightarrow>
        c \<in> {c. 1 \<le> cx c \<and> cx c \<le> viewWidth a - 2 \<and> 1 \<le> cy c \<and> cy c \<le> viewHeight a - 2}"
    by (cases c) (auto simp: interior_cells_def image_iff)
qed

lemma nbr_opposite:
  assumes "k \<in> set dirs"
  shows "\<exists>k'\<in>set dirs. nbr (nbr c k) k' = c"
proof -
  from assms consider "k = 1" | "k = 2" | "k = 3" | "k = 4" | "k = 5" | "k = 6" | "k = 7" | "k = 8"
    by (auto simp: dirs_def)
  then show ?thesis
  proof cases
    case 1 then show ?thesis by (intro bexI[of _ 5]) (simp_all add: nbr_def dx_def dy_def dirs_def)
  next
    case 2 then show ?thesis by (intro bexI[of _ 6]) (simp_all add: nbr_def dx_def dy_def dirs_def)
  next
    case 3 then show ?thesis by (intro bexI[of _ 7]) (simp_all add: nbr_def dx_def dy_def dirs_def)
  next
    case 4 then show ?thesis by (intro bexI[of _ 8]) (simp_all add: nbr_def dx_def dy_def dirs_def)
  next
    case 5 then show ?thesis by (intro bexI[of _ 1]) (simp_all add: nbr_def dx_def dy_def dirs_def)
  next
    case 6 then show ?thesis by (intro bexI[of _ 2]) (simp_all add: nbr_def dx_def dy_def dirs_def)
  next
    case 7 then show ?thesis by (intro bexI[of _ 3]) (simp_all add: nbr_def dx_def dy_def dirs_def)
  next
    case 8 then show ?thesis by (intro bexI[of _ 4]) (simp_all add: nbr_def dx_def dy_def dirs_def)
  qed
qed

lemma length_dirs [simp]: "length dirs = 8"
  by (simp add: dirs_def)

subsection \<open>The number of cells of a raster that are not positive\<close>


lemma unset_decreases:
  assumes "in_grid a c" "cell a c \<le> 0" "0 < v"
  shows "unset (a\<lparr>cell := (cell a)(c := v)\<rparr>) < unset a"
proof -
  let ?A = "{d. in_grid a d \<and> cell a d \<le> 0}"
  let ?B = "{d. in_grid a d \<and> ((cell a)(c := v)) d \<le> 0}"
  have fin: "finite ?A" using finite_in_grid[of a] by (rule rev_finite_subset) auto
  have "?B \<subseteq> ?A" using assms by auto
  moreover have "c \<in> ?A" "c \<notin> ?B" using assms by auto
  ultimately have "?B \<subset> ?A" by blast
  then have "card ?B < card ?A" using fin by (rule psubset_card_mono[rotated])
  then show ?thesis by (simp add: unset_def)
qed

subsection \<open>Rules for loops\<close>

lemma while_loop_total:
  fixes m :: "'s \<Rightarrow> nat"
  assumes "I s"
    and step: "\<And>s. I s \<Longrightarrow> cont s \<Longrightarrow> \<exists>s'. body s = Inr s' \<and> I s' \<and> m s' < m s"
  shows "\<exists>s'. while_loop cont body s = Some (Inr s') \<and> I s' \<and> \<not> cont s'"
  using assms(1)
proof (induction "m s" arbitrary: s rule: less_induct)
  case less
  show ?case
  proof (cases "cont s")
    case False
    with less.prems show ?thesis by (subst while_loop.simps) simp
  next
    case True
    from step[OF less.prems True] obtain s1 where s1: "body s = Inr s1" "I s1" "m s1 < m s"
      by blast
    from less.hyps[OF s1(3) s1(2)] obtain s' where
      "while_loop cont body s1 = Some (Inr s')" "I s'" "\<not> cont s'" by blast
    with True s1(1) show ?thesis by (subst while_loop.simps) simp
  qed
qed


lemma steps_while_loop: "steps cont body s s1 \<Longrightarrow> while_loop cont body s = while_loop cont body s1"
proof (induction rule: steps.induct)
  case (steps_refl s)
  show ?case ..
next
  case (steps_step s s1 s2)
  then show ?case by (simp add: while_loop.simps[of cont body s1])
qed

lemma steps_invariant:
  assumes "steps cont body s s1" "I s"
    and "\<And>s s'. I s \<Longrightarrow> cont s \<Longrightarrow> body s = Inr s' \<Longrightarrow> I s'"
  shows "I s1"
  using assms(1,2) by (induction rule: steps.induct) (auto intro: assms(3))

subsection \<open>Evaluation of the concrete scenarios\<close>

lemmas eval_defs =
  raster_def all_cells_def interior_cells_def dirs_def nbr_def dx_def dy_def in_grid_def
  NO_FLOW_def upto.simps

lemma find_flat_edges_pit:
  "find_flat_edges F_pit E_pit =
     ([], [Cell 1 1, Cell 1 2, Cell 1 3, Cell 2 1, Cell 2 3, Cell 3 1, Cell 3 2, Cell 3 3])"
  by (simp add: find_flat_edges_def F_pit_def E_pit_def edge_body_def eval_defs)


subsection \<open>The queue of the gradient procedures\<close>

lemma in_grid_not_marker: "in_grid L c \<Longrightarrow> cx c \<noteq> -1"
  by (auto simp: in_grid_def)

lemma marker_cx [simp]: "cx iteration_marker = -1"
  by (simp add: iteration_marker_def)

lemma wf_queue_split:
  assumes "wf_queue L q"
  shows "q = cur_part q @ iteration_marker # nxt_part q"
    and "\<forall>c\<in>set (cur_part q) \<union> set (nxt_part q). in_grid L c"
proof -
  from assms obtain cur nxt where q: "q = cur @ iteration_marker # nxt"
    and g: "\<forall>c\<in>set cur \<union> set nxt. in_grid L c" by (auto simp: wf_queue_def)
  have nm: "\<forall>c\<in>set cur. cx c \<noteq> -1" using g in_grid_not_marker by blast
  have c: "cur_part q = cur" unfolding cur_part_def q using nm by (simp add: takeWhile_append2)
  have n: "nxt_part q = nxt" unfolding nxt_part_def q using nm by (simp add: dropWhile_append2)
  show "q = cur_part q @ iteration_marker # nxt_part q" using q c n by simp
  show "\<forall>c\<in>set (cur_part q) \<union> set (nxt_part q). in_grid L c" using g c n by simp
qed

lemma wf_queue_parts:
  assumes "\<forall>c\<in>set cur \<union> set nxt. in_grid L c"
  shows "wf_queue L (cur @ iteration_marker # nxt)"
    and "cur_part (cur @ iteration_marker # nxt) = cur"
    and "nxt_part (cur @ iteration_marker # nxt) = nxt"
proof -
  have nm: "\<forall>c\<in>set cur. cx c \<noteq> -1" using assms in_grid_not_marker by blast
  show "wf_queue L (cur @ iteration_marker # nxt)" using assms by (auto simp: wf_queue_def)
  show "cur_part (cur @ iteration_marker # nxt) = cur"
    unfolding cur_part_def using nm by (simp add: takeWhile_append2)
  show "nxt_part (cur @ iteration_marker # nxt) = nxt"
    unfolding nxt_part_def using nm by (simp add: dropWhile_append2)
qed

text \<open>The front of a well-formed queue: the marker, with all other cells behind it, or a
  cell of the current wavefront.\<close>

lemma wf_queue_front:
  assumes "wf_queue L q"
  obtains (marker) "cur_part q = []" "q = iteration_marker # nxt_part q"
  | (front) c rest where "q = c # rest" "in_grid L c" "cx c \<noteq> -1" "wf_queue L rest"
      "cur_part q = c # cur_part rest" "nxt_part q = nxt_part rest"
proof (cases "cur_part q")
  case Nil
  with wf_queue_split(1)[OF assms] have "q = iteration_marker # nxt_part q" by simp
  with Nil show ?thesis by (rule marker)
next
  case (Cons c cur)
  let ?rest = "cur @ iteration_marker # nxt_part q"
  have q: "q = c # ?rest" using wf_queue_split(1)[OF assms] Cons by simp
  have g: "in_grid L c" "\<forall>d\<in>set cur \<union> set (nxt_part q). in_grid L d"
    using wf_queue_split(2)[OF assms] Cons by auto
  have "cur_part q = c # cur_part ?rest" "nxt_part q = nxt_part ?rest"
    using Cons wf_queue_parts(2,3)[OF g(2)] by simp_all
  then show ?thesis
    using front[of c ?rest] q g in_grid_not_marker[OF g(1)] wf_queue_parts(1)[OF g(2)] by blast
qed

lemma wf_queue_after_marker:
  assumes "wf_queue L q" "cur_part q = []"
  shows "wf_queue L (nxt_part q @ [iteration_marker])"
    and "cur_part (nxt_part q @ [iteration_marker]) = nxt_part q"
    and "nxt_part (nxt_part q @ [iteration_marker]) = []"
  using wf_queue_parts[of "nxt_part q" "[]" L] wf_queue_split(2)[OF assms(1)] by simp_all

lemma wf_queue_push:
  assumes "wf_queue L q" "\<forall>c\<in>set xs. in_grid L c"
  shows "wf_queue L (q @ xs)" and "cur_part (q @ xs) = cur_part q"
    and "nxt_part (q @ xs) = nxt_part q @ xs"
proof -
  have g: "\<forall>c\<in>set (cur_part q) \<union> set (nxt_part q @ xs). in_grid L c"
    using wf_queue_split(2)[OF assms(1)] assms(2) by auto
  have q: "q @ xs = cur_part q @ iteration_marker # (nxt_part q @ xs)"
    using wf_queue_split(1)[OF assms(1)] by (metis append_Cons append_assoc)
  show "wf_queue L (q @ xs)" by (subst q) (rule wf_queue_parts(1)[OF g])
  show "cur_part (q @ xs) = cur_part q" by (subst q) (rule wf_queue_parts(2)[OF g])
  show "nxt_part (q @ xs) = nxt_part q @ xs" by (subst q) (rule wf_queue_parts(3)[OF g])
qed

lemma wf_queue_length_1:
  assumes "wf_queue L q"
  shows "length q = 1 \<longleftrightarrow> cur_part q = [] \<and> nxt_part q = []"
proof -
  have "length q = length (cur_part q) + 1 + length (nxt_part q)"
    using arg_cong[OF wf_queue_split(1)[OF assms], of length] by simp
  then show ?thesis by auto
qed

lemma pushed_in_grid: "n \<in> set (pushed F L c) \<Longrightarrow> in_grid L n"
  by (auto simp: pushed_def)

lemma length_pushed: "length (pushed F L c) \<le> 8"
  unfolding pushed_def using length_filter_le[of _ "map (nbr c) dirs"] by simp


section \<open>BuildAwayGradient: termination and the frame of its writes\<close>

lemma away_inv1D:
  assumes "away_inv1 L M0 n s"
  shows "viewWidth (flat_mask s) = viewWidth L" "viewHeight (flat_mask s) = viewHeight L"
    and "noData (flat_mask s) = noData M0"
    and "wf_queue L (edges s)" and "1 \<le> loops s" and "length (flat_height s) = n"
    and "labels_in_range L n"
    and "\<And>c. cell (flat_mask s) c = cell M0 c
              \<or> (in_grid L c \<and> cell M0 c \<le> 0 \<and> 0 < cell (flat_mask s) c
                  \<and> cell (flat_mask s) c \<le> loops s)"
    and "\<And>c. cell M0 c \<le> 0 \<Longrightarrow> 0 < cell (flat_mask s) c
              \<Longrightarrow> cell (flat_mask s) c \<le> flat_height s ! nat (cell L c)"
  using assms by (simp_all add: away_inv1_def)

lemma away_inv1I:
  assumes "viewWidth (flat_mask s) = viewWidth L" "viewHeight (flat_mask s) = viewHeight L"
    and "noData (flat_mask s) = noData M0"
    and "wf_queue L (edges s)" and "1 \<le> loops s" and "length (flat_height s) = n"
    and "labels_in_range L n"
    and "\<And>c. cell (flat_mask s) c = cell M0 c
              \<or> (in_grid L c \<and> cell M0 c \<le> 0 \<and> 0 < cell (flat_mask s) c
                  \<and> cell (flat_mask s) c \<le> loops s)"
    and "\<And>c. cell M0 c \<le> 0 \<Longrightarrow> 0 < cell (flat_mask s) c
              \<Longrightarrow> cell (flat_mask s) c \<le> flat_height s ! nat (cell L c)"
  shows "away_inv1 L M0 n s"
  using assms by (simp add: away_inv1_def)

lemma away_inv1_in_grid: "away_inv1 L M0 n s \<Longrightarrow> in_grid (flat_mask s) = in_grid L"
  by (rule in_grid_cong) (simp_all add: away_inv1_def)

lemma away_body_marker:
  assumes inv: "away_inv1 L M0 n s" and cont: "length (edges s) \<noteq> 1"
    and front: "cur_part (edges s) = []"
  shows "away_body F L s
           = Inr (s\<lparr>edges := nxt_part (edges s) @ [iteration_marker], loops := loops s + 1\<rparr>)"
    and "away_inv1 L M0 n (s\<lparr>edges := nxt_part (edges s) @ [iteration_marker], loops := loops s + 1\<rparr>)"
    and "bfs_measure (s\<lparr>edges := nxt_part (edges s) @ [iteration_marker], loops := loops s + 1\<rparr>)
           < bfs_measure s"
proof -
  let ?nxt = "nxt_part (edges s)"
  note d = away_inv1D[OF inv]
  have wf: "wf_queue L (edges s)" by (rule d(4))
  have q: "edges s = iteration_marker # ?nxt" using wf_queue_split(1)[OF wf] front by simp
  have ne: "?nxt \<noteq> []" using cont wf_queue_length_1[OF wf] front by simp
  show "away_body F L s = Inr (s\<lparr>edges := ?nxt @ [iteration_marker], loops := loops s + 1\<rparr>)"
    by (subst away_body_def, subst q) simp
  show "away_inv1 L M0 n (s\<lparr>edges := ?nxt @ [iteration_marker], loops := loops s + 1\<rparr>)"
  proof (rule away_inv1I)
    show "wf_queue L (edges (s\<lparr>edges := ?nxt @ [iteration_marker], loops := loops s + 1\<rparr>))"
      using wf_queue_after_marker(1)[OF wf front] by simp
    fix c
    show "cell (flat_mask (s\<lparr>edges := ?nxt @ [iteration_marker], loops := loops s + 1\<rparr>)) c = cell M0 c
              \<or> (in_grid L c \<and> cell M0 c \<le> 0
                  \<and> 0 < cell (flat_mask (s\<lparr>edges := ?nxt @ [iteration_marker], loops := loops s + 1\<rparr>)) c
                  \<and> cell (flat_mask (s\<lparr>edges := ?nxt @ [iteration_marker], loops := loops s + 1\<rparr>)) c
                       \<le> loops (s\<lparr>edges := ?nxt @ [iteration_marker], loops := loops s + 1\<rparr>))"
      using d(8)[of c] by auto
  qed (use d in simp_all)
  have "hd ?nxt \<in> set ?nxt" using ne by simp
  then have "in_grid L (hd ?nxt)" using wf_queue_split(2)[OF wf] by blast
  then have "cx (hd (?nxt @ [iteration_marker])) \<noteq> -1"
    using ne in_grid_not_marker by (simp add: hd_append)
  moreover have "length (edges s) = length ?nxt + 1" by (subst q) simp
  moreover have "cx (hd (edges s)) = -1" by (subst q) simp
  moreover have "edges s \<noteq> []" by (subst q) simp
  ultimately show "bfs_measure (s\<lparr>edges := ?nxt @ [iteration_marker], loops := loops s + 1\<rparr>)
           < bfs_measure s"
    by (simp add: bfs_measure_def)
qed


lemma wf_queue_Cons:
  assumes "wf_queue L (c # rest)" "cx c \<noteq> -1"
  shows "in_grid L c" "wf_queue L rest"
    and "cur_part (c # rest) = c # cur_part rest" "nxt_part (c # rest) = nxt_part rest"
proof -
  from assms(1) show "in_grid L c"
  proof (cases rule: wf_queue_front)
    case marker
    then have "c = iteration_marker" by (metis list.inject)
    with assms(2) show ?thesis by simp
  next
    case (front c' rest')
    then show ?thesis by simp
  qed
  from assms(1) show "wf_queue L rest"
  proof (cases rule: wf_queue_front)
    case marker
    then have "c = iteration_marker" by (metis list.inject)
    with assms(2) show ?thesis by simp
  next
    case (front c' rest')
    then show ?thesis by simp
  qed
  show "cur_part (c # rest) = c # cur_part rest" using assms(2) by (simp add: cur_part_def)
  show "nxt_part (c # rest) = nxt_part rest" using assms(2) by (simp add: nxt_part_def)
qed

lemma away_body_skip:
  assumes inv: "away_inv1 L M0 n s" and q: "edges s = c # rest" and c: "cx c \<noteq> -1"
    and pos: "0 < cell (flat_mask s) c"
  shows "away_body F L s = Inr (s\<lparr>edges := rest\<rparr>)"
    and "away_inv1 L M0 n (s\<lparr>edges := rest\<rparr>)"
    and "bfs_measure (s\<lparr>edges := rest\<rparr>) < bfs_measure s"
proof -
  note d = away_inv1D[OF inv]
  from d(4) q c have g: "in_grid L c" and wf: "wf_queue L rest"
    using wf_queue_Cons(1,2)[of L c rest] by simp_all
  have g': "in_grid (flat_mask s) c" using g away_inv1_in_grid[OF inv] by simp
  show "away_body F L s = Inr (s\<lparr>edges := rest\<rparr>)"
    using c g g' pos by (simp add: away_body_def q)
  show "away_inv1 L M0 n (s\<lparr>edges := rest\<rparr>)"
    by (rule away_inv1I) (use d wf in simp_all)
  show "bfs_measure (s\<lparr>edges := rest\<rparr>) < bfs_measure s"
    using c by (simp add: bfs_measure_def q)
qed

lemma away_body_assign:
  fixes F :: "int Array2D"
  assumes inv: "away_inv1 L M0 n s" and q: "edges s = c # rest" and c: "cx c \<noteq> -1"
    and npos: "\<not> 0 < cell (flat_mask s) c"
  defines "s' \<equiv> \<lparr>edges = rest @ pushed F L c, loops = loops s,
                  flat_mask = (flat_mask s)\<lparr>cell := (cell (flat_mask s))(c := loops s)\<rparr>,
                  flat_height = (flat_height s)[nat (cell L c) := loops s]\<rparr>"
  shows "away_body F L s = Inr s'"
    and "away_inv1 L M0 n s'"
    and "bfs_measure s' < bfs_measure s"
proof -
  note d = away_inv1D[OF inv]
  from d(4) q c have g: "in_grid L c" and wf: "wf_queue L rest"
    using wf_queue_Cons(1,2)[of L c rest] by simp_all
  have g': "in_grid (flat_mask s) c" using g away_inv1_in_grid[OF inv] by simp
  have rng: "0 \<le> cell L c" "cell L c < int (length (flat_height s))"
    using d(6,7) by (simp_all add: labels_in_range_def)
  have rng': "\<And>d. 0 \<le> cell L d" using d(7) by (simp add: labels_in_range_def)
  have m0: "cell M0 c \<le> 0" "cell (flat_mask s) c = cell M0 c" using d(8)[of c] npos by auto
  show "away_body F L s = Inr s'"
    using c g g' npos rng by (simp add: away_body_def q s'_def)
  show "away_inv1 L M0 n s'"
  proof (rule away_inv1I)
    show "wf_queue L (edges s')"
      using wf_queue_push(1)[OF wf, of "pushed F L c"] pushed_in_grid by (simp add: s'_def)
    fix e
    show "cell (flat_mask s') e = cell M0 e
              \<or> (in_grid L e \<and> cell M0 e \<le> 0 \<and> 0 < cell (flat_mask s') e
                  \<and> cell (flat_mask s') e \<le> loops s')"
      using d(8)[of e] d(5) m0 g by (auto simp: s'_def)
    assume e: "cell M0 e \<le> 0" "0 < cell (flat_mask s') e"
    show "cell (flat_mask s') e \<le> flat_height s' ! nat (cell L e)"
    proof (cases "cell L e = cell L c")
      case True
      have "cell (flat_mask s') e \<le> loops s" using d(8)[of e] e by (auto simp: s'_def)
      then show ?thesis using True rng by (simp add: s'_def)
    next
      case False
      then have ne: "nat (cell L e) \<noteq> nat (cell L c)" "e \<noteq> c"
        using rng'[of e] rng'[of c] by auto
      then show ?thesis using d(9)[of e] e by (simp add: s'_def)
    qed
  qed (use d in \<open>simp_all add: s'_def\<close>)
  have "unset (flat_mask s') < unset (flat_mask s)"
    unfolding s'_def using unset_decreases[OF g', of "loops s"] npos d(5) by simp
  then have "16 * unset (flat_mask s') + 16 \<le> 16 * unset (flat_mask s)" by simp
  moreover have "length (edges s') \<le> length (edges s) + 7"
    using length_pushed[of F L c] by (simp add: s'_def q)
  moreover have "bfs_measure s' \<le> 16 * unset (flat_mask s') + 2 * length (edges s') + 1"
    by (simp add: bfs_measure_def)
  moreover have "bfs_measure s = 16 * unset (flat_mask s) + 2 * length (edges s)"
    using c by (simp add: bfs_measure_def q)
  ultimately show "bfs_measure s' < bfs_measure s" by linarith
qed

text \<open>Every step of the loop keeps the invariant and lowers the measure.\<close>

lemma away_step1:
  assumes inv: "away_inv1 L M0 n s" and cont: "length (edges s) \<noteq> 1"
  shows "\<exists>s'. away_body F L s = Inr s' \<and> away_inv1 L M0 n s' \<and> bfs_measure s' < bfs_measure s"
proof -
  have wf: "wf_queue L (edges s)" using inv by (simp add: away_inv1_def)
  from wf show ?thesis
  proof (cases rule: wf_queue_front)
    case marker
    then show ?thesis using away_body_marker[OF inv cont] by blast
  next
    case (front c rest)
    show ?thesis
    proof (cases "0 < cell (flat_mask s) c")
      case True
      then show ?thesis using away_body_skip[OF inv front(1,3)] by blast
    next
      case False
      then show ?thesis using away_body_assign[OF inv front(1,3)] by blast
    qed
  qed
qed


section \<open>BuildTowardsCombinedGradient: termination and the frame of its writes\<close>

lemma tow_inv1D:
  assumes "tow_inv1 L Ms H s"
  shows "viewWidth (flat_mask s) = viewWidth L" "viewHeight (flat_mask s) = viewHeight L"
    and "noData (flat_mask s) = noData Ms"
    and "wf_queue L (edges s)" and "1 \<le> loops s" and "flat_height s = H"
    and "labels_in_range L (length H)"
    and "\<And>c. cell (flat_mask s) c = cell Ms c
              \<or> (in_grid L c \<and> cell Ms c \<le> 0 \<and> 0 < cell (flat_mask s) c)"
    and "\<And>c. cell (flat_mask s) c < 0 \<Longrightarrow> 0 \<le> H ! nat (cell L c) + cell (flat_mask s) c"
  using assms by (simp_all add: tow_inv1_def)

lemma tow_inv1I:
  assumes "viewWidth (flat_mask s) = viewWidth L" "viewHeight (flat_mask s) = viewHeight L"
    and "noData (flat_mask s) = noData Ms"
    and "wf_queue L (edges s)" and "1 \<le> loops s" and "flat_height s = H"
    and "labels_in_range L (length H)"
    and "\<And>c. cell (flat_mask s) c = cell Ms c
              \<or> (in_grid L c \<and> cell Ms c \<le> 0 \<and> 0 < cell (flat_mask s) c)"
    and "\<And>c. cell (flat_mask s) c < 0 \<Longrightarrow> 0 \<le> H ! nat (cell L c) + cell (flat_mask s) c"
  shows "tow_inv1 L Ms H s"
  using assms by (simp add: tow_inv1_def)

lemma tow_inv1_in_grid: "tow_inv1 L Ms H s \<Longrightarrow> in_grid (flat_mask s) = in_grid L"
  by (rule in_grid_cong) (simp_all add: tow_inv1_def)

lemma towards_body_marker:
  assumes inv: "tow_inv1 L Ms H s" and cont: "length (edges s) \<noteq> 1"
    and front: "cur_part (edges s) = []"
  shows "towards_body F L s
           = Inr (s\<lparr>edges := nxt_part (edges s) @ [iteration_marker], loops := loops s + 1\<rparr>)"
    and "tow_inv1 L Ms H (s\<lparr>edges := nxt_part (edges s) @ [iteration_marker], loops := loops s + 1\<rparr>)"
    and "bfs_measure (s\<lparr>edges := nxt_part (edges s) @ [iteration_marker], loops := loops s + 1\<rparr>)
           < bfs_measure s"
proof -
  let ?nxt = "nxt_part (edges s)"
  note d = tow_inv1D[OF inv]
  have wf: "wf_queue L (edges s)" by (rule d(4))
  have q: "edges s = iteration_marker # ?nxt" using wf_queue_split(1)[OF wf] front by simp
  have ne: "?nxt \<noteq> []" using cont wf_queue_length_1[OF wf] front by simp
  show "towards_body F L s = Inr (s\<lparr>edges := ?nxt @ [iteration_marker], loops := loops s + 1\<rparr>)"
    by (subst towards_body_def, subst q) simp
  show "tow_inv1 L Ms H (s\<lparr>edges := ?nxt @ [iteration_marker], loops := loops s + 1\<rparr>)"
  proof (rule tow_inv1I)
    show "wf_queue L (edges (s\<lparr>edges := ?nxt @ [iteration_marker], loops := loops s + 1\<rparr>))"
      using wf_queue_after_marker(1)[OF wf front] by simp
  qed (use d in simp_all)
  have "hd ?nxt \<in> set ?nxt" using ne by simp
  then have "in_grid L (hd ?nxt)" using wf_queue_split(2)[OF wf] by blast
  then have "cx (hd (?nxt @ [iteration_marker])) \<noteq> -1"
    using ne in_grid_not_marker by (simp add: hd_append)
  moreover have "length (edges s) = length ?nxt + 1" by (subst q) simp
  moreover have "cx (hd (edges s)) = -1" by (subst q) simp
  moreover have "edges s \<noteq> []" by (subst q) simp
  ultimately show "bfs_measure (s\<lparr>edges := ?nxt @ [iteration_marker], loops := loops s + 1\<rparr>)
           < bfs_measure s"
    by (simp add: bfs_measure_def)
qed

lemma towards_body_skip:
  assumes inv: "tow_inv1 L Ms H s" and q: "edges s = c # rest" and c: "cx c \<noteq> -1"
    and pos: "0 < cell (flat_mask s) c"
  shows "towards_body F L s = Inr (s\<lparr>edges := rest\<rparr>)"
    and "tow_inv1 L Ms H (s\<lparr>edges := rest\<rparr>)"
    and "bfs_measure (s\<lparr>edges := rest\<rparr>) < bfs_measure s"
proof -
  note d = tow_inv1D[OF inv]
  from d(4) q c have g: "in_grid L c" and wf: "wf_queue L rest"
    using wf_queue_Cons(1,2)[of L c rest] by simp_all
  have g': "in_grid (flat_mask s) c" using g tow_inv1_in_grid[OF inv] by simp
  show "towards_body F L s = Inr (s\<lparr>edges := rest\<rparr>)"
    using c g g' pos by (simp add: towards_body_def q)
  show "tow_inv1 L Ms H (s\<lparr>edges := rest\<rparr>)"
    by (rule tow_inv1I) (use d wf in simp_all)
  show "bfs_measure (s\<lparr>edges := rest\<rparr>) < bfs_measure s"
    using c by (simp add: bfs_measure_def q)
qed

lemma towards_body_assign:
  fixes F :: "int Array2D"
  assumes inv: "tow_inv1 L Ms H s" and q: "edges s = c # rest" and c: "cx c \<noteq> -1"
    and npos: "\<not> 0 < cell (flat_mask s) c"
  defines "s' \<equiv> \<lparr>edges = rest @ pushed F L c, loops = loops s,
                  flat_mask = (flat_mask s)\<lparr>cell := (cell (flat_mask s))
                     (c := towards_value H L c (cell (flat_mask s) c) (loops s))\<rparr>,
                  flat_height = flat_height s\<rparr>"
  shows "towards_body F L s = Inr s'"
    and "tow_inv1 L Ms H s'"
    and "bfs_measure s' < bfs_measure s"
    and "0 < towards_value H L c (cell (flat_mask s) c) (loops s)"
proof -
  note d = tow_inv1D[OF inv]
  from d(4) q c have g: "in_grid L c" and wf: "wf_queue L rest"
    using wf_queue_Cons(1,2)[of L c rest] by simp_all
  have g': "in_grid (flat_mask s) c" using g tow_inv1_in_grid[OF inv] by simp
  have rng: "0 \<le> cell L c" "cell L c < int (length (flat_height s))"
    using d(6,7) by (simp_all add: labels_in_range_def)
  have m0: "cell Ms c \<le> 0" "cell (flat_mask s) c = cell Ms c" using d(8)[of c] npos by auto
  show v: "0 < towards_value H L c (cell (flat_mask s) c) (loops s)"
    using d(9)[of c] d(5) npos by (auto simp: towards_value_def)
  show "towards_body F L s = Inr s'"
    using c g g' npos rng d(6) by (simp add: towards_body_def q s'_def towards_value_def)
  show "tow_inv1 L Ms H s'"
  proof (rule tow_inv1I)
    show "wf_queue L (edges s')"
      using wf_queue_push(1)[OF wf, of "pushed F L c"] pushed_in_grid by (simp add: s'_def)
    fix e
    show "cell (flat_mask s') e = cell Ms e
              \<or> (in_grid L e \<and> cell Ms e \<le> 0 \<and> 0 < cell (flat_mask s') e)"
      using d(8)[of e] m0 g v by (auto simp: s'_def)
    assume "cell (flat_mask s') e < 0"
    then show "0 \<le> H ! nat (cell L e) + cell (flat_mask s') e"
      using d(9)[of e] v by (auto simp: s'_def split: if_splits)
  qed (use d in \<open>simp_all add: s'_def\<close>)
  have "unset (flat_mask s') < unset (flat_mask s)"
    unfolding s'_def using unset_decreases[OF g' _ v] npos by simp
  then have "16 * unset (flat_mask s') + 16 \<le> 16 * unset (flat_mask s)" by simp
  moreover have "length (edges s') \<le> length (edges s) + 7"
    using length_pushed[of F L c] by (simp add: s'_def q)
  moreover have "bfs_measure s' \<le> 16 * unset (flat_mask s') + 2 * length (edges s') + 1"
    by (simp add: bfs_measure_def)
  moreover have "bfs_measure s = 16 * unset (flat_mask s) + 2 * length (edges s)"
    using c by (simp add: bfs_measure_def q)
  ultimately show "bfs_measure s' < bfs_measure s" by linarith
qed

lemma towards_step1:
  assumes inv: "tow_inv1 L Ms H s" and cont: "length (edges s) \<noteq> 1"
  shows "\<exists>s'. towards_body F L s = Inr s' \<and> tow_inv1 L Ms H s' \<and> bfs_measure s' < bfs_measure s"
proof -
  have wf: "wf_queue L (edges s)" using inv by (simp add: tow_inv1_def)
  from wf show ?thesis
  proof (cases rule: wf_queue_front)
    case marker
    then show ?thesis using towards_body_marker[OF inv cont] by blast
  next
    case (front c rest)
    show ?thesis
    proof (cases "0 < cell (flat_mask s) c")
      case True
      then show ?thesis using towards_body_skip[OF inv front(1,3)] by blast
    next
      case False
      then show ?thesis using towards_body_assign(1-3)[OF inv front(1,3)] by blast
    qed
  qed
qed

subsection \<open>Both loops return\<close>

lemma while_loop_total2:
  fixes m :: "'s \<Rightarrow> nat"
  assumes "I s" "J s"
    and step: "\<And>s. I s \<Longrightarrow> cont s \<Longrightarrow> \<exists>s'. body s = Inr s' \<and> I s' \<and> m s' < m s"
    and pres: "\<And>s s'. I s \<Longrightarrow> J s \<Longrightarrow> cont s \<Longrightarrow> body s = Inr s' \<Longrightarrow> J s'"
  shows "\<exists>s'. while_loop cont body s = Some (Inr s') \<and> I s' \<and> J s' \<and> \<not> cont s'"
proof -
  have "\<exists>s'. while_loop cont body s = Some (Inr s') \<and> (I s' \<and> J s') \<and> \<not> cont s'"
  proof (rule while_loop_total[where m = m])
    show "I s \<and> J s" using assms(1,2) by simp
    fix s assume a: "I s \<and> J s" "cont s"
    from step[of s] a obtain s' where "body s = Inr s'" "I s'" "m s' < m s" by blast
    moreover from pres[of s s'] a this have "J s'" by blast
    ultimately show "\<exists>s'. body s = Inr s' \<and> (I s' \<and> J s') \<and> m s' < m s" by blast
  qed
  then show ?thesis by blast
qed

lemma away_inv1_initial:
  assumes "viewWidth M0 = viewWidth L" "viewHeight M0 = viewHeight L"
    and "\<forall>c\<in>set edges0. in_grid L c" and "labels_in_range L (length H0)"
  shows "away_inv1 L M0 (length H0)
           \<lparr>edges = edges0 @ [iteration_marker], loops = 1, flat_mask = M0, flat_height = H0\<rparr>"
  using assms wf_queue_parts(1)[of edges0 "[]" L] by (simp add: away_inv1_def)

lemma tow_inv1_initial:
  assumes "viewWidth M1 = viewWidth L" "viewHeight M1 = viewHeight L"
    and "\<forall>c\<in>set edges0. in_grid L c" and "labels_in_range L (length H)"
    and "\<forall>c. cell M1 c < 0 \<longrightarrow> 0 \<le> H ! nat (cell L c) + cell M1 c"
  shows "tow_inv1 L M1 H
           \<lparr>edges = edges0 @ [iteration_marker], loops = 1, flat_mask = M1, flat_height = H\<rparr>"
  using assms wf_queue_parts(1)[of edges0 "[]" L] by (simp add: tow_inv1_def)

lemma final_queue:
  assumes "wf_queue L q" "\<not> length q \<noteq> 1"
  shows "q = [iteration_marker]" "cur_part q = []" "nxt_part q = []"
proof -
  from assms wf_queue_length_1[OF assms(1)] show c: "cur_part q = []" "nxt_part q = []" by simp_all
  with wf_queue_split(1)[OF assms(1)] show "q = [iteration_marker]" by simp
qed


section \<open>label_this: termination and the frame of its writes\<close>

lemma label_inv1D:
  assumes "label_inv1 E target label L0 seed s"
  shows "viewWidth (lab s) = viewWidth L0" "viewHeight (lab s) = viewHeight L0"
    and "noData (lab s) = noData L0"
    and "\<And>c. c \<in> set (to_fill s) \<Longrightarrow> in_grid L0 c"
    and "\<And>c. cell (lab s) c = cell L0 c
              \<or> (in_grid L0 c \<and> cell L0 c \<le> 0 \<and> cell (lab s) c = label \<and> cell E c = target)"
    and "(seed \<in> set (to_fill s) \<and> cell (lab s) seed = cell L0 seed) \<or> cell (lab s) seed = label"
    and "\<And>c. c \<in> set (to_fill s) \<Longrightarrow> c = seed
              \<or> (\<exists>p k. k \<in> set dirs \<and> c = nbr p k \<and> in_grid L0 p \<and> cell L0 p \<le> 0
                       \<and> cell (lab s) p = label)"
  using assms by (simp_all add: label_inv1_def)

lemma label_inv1I:
  assumes "viewWidth (lab s) = viewWidth L0" "viewHeight (lab s) = viewHeight L0"
    and "noData (lab s) = noData L0"
    and "\<And>c. c \<in> set (to_fill s) \<Longrightarrow> in_grid L0 c"
    and "\<And>c. cell (lab s) c = cell L0 c
              \<or> (in_grid L0 c \<and> cell L0 c \<le> 0 \<and> cell (lab s) c = label \<and> cell E c = target)"
    and "(seed \<in> set (to_fill s) \<and> cell (lab s) seed = cell L0 seed) \<or> cell (lab s) seed = label"
    and "\<And>c. c \<in> set (to_fill s) \<Longrightarrow> c = seed
              \<or> (\<exists>p k. k \<in> set dirs \<and> c = nbr p k \<and> in_grid L0 p \<and> cell L0 p \<le> 0
                       \<and> cell (lab s) p = label)"
  shows "label_inv1 E target label L0 seed s"
  using assms by (simp add: label_inv1_def)

lemma label_inv1_in_grid: "label_inv1 E target label L0 seed s \<Longrightarrow> in_grid (lab s) = in_grid L0"
  by (rule in_grid_cong) (simp_all add: label_inv1_def)

lemma label_body_skip:
  assumes inv: "label_inv1 E target label L0 seed s" and q: "to_fill s = c # rest"
    and skip: "cell E c \<noteq> target \<or> 0 < cell (lab s) c"
    and seed: "cell E seed = target" "cell L0 seed \<le> 0"
  shows "label_body E target label s = Inr (s\<lparr>to_fill := rest\<rparr>)"
    and "label_inv1 E target label L0 seed (s\<lparr>to_fill := rest\<rparr>)"
    and "label_measure (s\<lparr>to_fill := rest\<rparr>) < label_measure s"
proof -
  note d = label_inv1D[OF inv]
  have g: "in_grid (lab s) c" using d(4)[of c] q label_inv1_in_grid[OF inv] by simp
  show "label_body E target label s = Inr (s\<lparr>to_fill := rest\<rparr>)"
    using g skip by (auto simp: label_body_def q)
  show "label_inv1 E target label L0 seed (s\<lparr>to_fill := rest\<rparr>)"
  proof (rule label_inv1I)
    show "(seed \<in> set (to_fill (s\<lparr>to_fill := rest\<rparr>))
             \<and> cell (lab (s\<lparr>to_fill := rest\<rparr>)) seed = cell L0 seed)
          \<or> cell (lab (s\<lparr>to_fill := rest\<rparr>)) seed = label"
      using d(6) skip seed q by auto
  qed (use d q in auto)
  show "label_measure (s\<lparr>to_fill := rest\<rparr>) < label_measure s"
    by (simp add: label_measure_def q)
qed

lemma label_body_assign:
  fixes E :: "'e::linorder Array2D"
  assumes inv: "label_inv1 E target label L0 seed s" and q: "to_fill s = c # rest"
    and go: "cell E c = target" "\<not> 0 < cell (lab s) c" and pos: "0 < label"
  defines "s' \<equiv> \<lparr>to_fill = rest @ filter (in_grid (lab s)) (map (nbr c) dirs),
                  lab = (lab s)\<lparr>cell := (cell (lab s))(c := label)\<rparr>\<rparr>"
  shows "label_body E target label s = Inr s'"
    and "label_inv1 E target label L0 seed s'"
    and "label_measure s' < label_measure s"
proof -
  note d = label_inv1D[OF inv]
  note ig = label_inv1_in_grid[OF inv]
  have g0: "in_grid L0 c" using d(4)[of c] q by simp
  have g: "in_grid (lab s) c" using g0 ig by simp
  have m0: "cell L0 c \<le> 0" "cell (lab s) c = cell L0 c" using d(5)[of c] go(2) pos by auto
  show "label_body E target label s = Inr s'"
    using g go by (simp add: label_body_def q s'_def)
  show "label_inv1 E target label L0 seed s'"
  proof (rule label_inv1I)
    fix e assume "e \<in> set (to_fill s')"
    then show "in_grid L0 e" using d(4)[of e] q ig by (auto simp: s'_def)
  next
    fix e
    show "cell (lab s') e = cell L0 e
              \<or> (in_grid L0 e \<and> cell L0 e \<le> 0 \<and> cell (lab s') e = label \<and> cell E e = target)"
      using d(5)[of e] m0 g0 go(1) by (auto simp: s'_def)
  next
    show "(seed \<in> set (to_fill s') \<and> cell (lab s') seed = cell L0 seed) \<or> cell (lab s') seed = label"
      using d(6) q by (auto simp: s'_def)
  next
    fix e assume e: "e \<in> set (to_fill s')"
    show "e = seed \<or> (\<exists>p k. k \<in> set dirs \<and> e = nbr p k \<and> in_grid L0 p \<and> cell L0 p \<le> 0
                       \<and> cell (lab s') p = label)"
    proof (cases "e \<in> set rest")
      case True
      then have "e \<in> set (to_fill s)" by (simp add: q)
      from d(7)[OF this] show ?thesis by (auto simp: s'_def)
    next
      case False
      with e obtain k where "k \<in> set dirs" "e = nbr c k" by (auto simp: s'_def)
      then show ?thesis using g0 m0 by (auto simp: s'_def)
    qed
  qed (use d in \<open>simp_all add: s'_def\<close>)
  have "unset (lab s') < unset (lab s)"
    unfolding s'_def using unset_decreases[OF g _ pos] go(2) by simp
  moreover have "length (to_fill s') \<le> length (to_fill s) + 7"
    using length_filter_le[of "in_grid (lab s)" "map (nbr c) dirs"] by (simp add: s'_def q)
  ultimately show "label_measure s' < label_measure s"
    by (simp add: label_measure_def)
qed

lemma label_step1:
  assumes inv: "label_inv1 E target label L0 seed s" and cont: "length (to_fill s) > 0"
    and seed: "cell E seed = target" "cell L0 seed \<le> 0" and pos: "0 < label"
  shows "\<exists>s'. label_body E target label s = Inr s' \<and> label_inv1 E target label L0 seed s'
              \<and> label_measure s' < label_measure s"
proof -
  from cont obtain c rest where q: "to_fill s = c # rest" by (cases "to_fill s") auto
  show ?thesis
  proof (cases "cell E c \<noteq> target \<or> 0 < cell (lab s) c")
    case True
    then show ?thesis using label_body_skip[OF inv q _ seed] by blast
  next
    case False
    then show ?thesis using label_body_assign[OF inv q _ _ pos] by blast
  qed
qed

lemma label_inv1_initial:
  assumes "in_grid L0 seed"
  shows "label_inv1 E target label L0 seed \<lparr>to_fill = [seed], lab = L0\<rparr>"
  using assms by (simp add: label_inv1_def)

text \<open>\<^verbatim>\<open>label_this\<close> returns; it writes its label, and only to cells of the target
  elevation that were not labelled, the seed among them.\<close>

lemma label_this_total:
  assumes g: "in_grid L0 (Cell x0 y0)" and z: "cell L0 (Cell x0 y0) \<le> 0" and pos: "0 < label"
  shows "\<exists>L'. label_this x0 y0 label L0 E = Some (Inr L')
           \<and> viewWidth L' = viewWidth L0 \<and> viewHeight L' = viewHeight L0 \<and> noData L' = noData L0
           \<and> (\<forall>c. cell L' c = cell L0 c
                  \<or> (in_grid L0 c \<and> cell L0 c \<le> 0 \<and> cell L' c = label
                      \<and> cell E c = cell E (Cell x0 y0)))
           \<and> cell L' (Cell x0 y0) = label"
proof -
  let ?seed = "Cell x0 y0" and ?t = "cell E (Cell x0 y0)"
  have "\<exists>s'. while_loop (\<lambda>s. length (to_fill s) > 0) (label_body E ?t label)
                \<lparr>to_fill = [?seed], lab = L0\<rparr> = Some (Inr s')
            \<and> label_inv1 E ?t label L0 ?seed s' \<and> \<not> length (to_fill s') > 0"
  proof (rule while_loop_total[where m = label_measure])
    show "label_inv1 E ?t label L0 ?seed \<lparr>to_fill = [?seed], lab = L0\<rparr>"
      by (rule label_inv1_initial[OF g])
    fix s assume "label_inv1 E ?t label L0 ?seed s" "length (to_fill s) > 0"
    then show "\<exists>s'. label_body E ?t label s = Inr s' \<and> label_inv1 E ?t label L0 ?seed s'
                  \<and> label_measure s' < label_measure s"
      by (rule label_step1[OF _ _ refl z pos])
  qed
  then obtain s' where s': "while_loop (\<lambda>s. length (to_fill s) > 0) (label_body E ?t label)
                \<lparr>to_fill = [?seed], lab = L0\<rparr> = Some (Inr s')"
    "label_inv1 E ?t label L0 ?seed s'" "to_fill s' = []" by auto
  note d = label_inv1D[OF s'(2)]
  have "label_this x0 y0 label L0 E = Some (Inr (lab s'))"
    unfolding label_this_def s'(1) by simp
  moreover have "cell (lab s') ?seed = label" using d(6) s'(3) by simp
  ultimately show ?thesis using d(1,2,3,5) by blast
qed


section \<open>The labelling loop\<close>

lemma label_this_filled:
  assumes "in_grid L i" "cell L i \<le> 0" "0 < g"
  shows "\<exists>L'. filled E i g L L'"
  using label_this_total[of L "cx i" "cy i" g E] assms by (simp add: filled_def)

lemma labelling_inv_filled:
  assumes inv: "labelling_inv E g L" and f: "filled E i g L L'"
  shows "labelling_inv E (g + 1) L'"
proof -
  from inv have g: "1 \<le> g" unfolding labelling_inv_def by blast
  from inv have rng: "\<And>c. 0 \<le> cell L c \<and> cell L c < g" unfolding labelling_inv_def by blast
  from inv have used: "\<And>l. 1 \<le> l \<Longrightarrow> l < g \<Longrightarrow> \<exists>c. in_grid L c \<and> cell L c = l"
    unfolding labelling_inv_def by blast
  from inv have elev: "\<And>c d. 0 < cell L c \<Longrightarrow> cell L c = cell L d \<Longrightarrow> cell E c = cell E d"
    unfolding labelling_inv_def by blast
  from inv have ing: "\<And>c. 0 < cell L c \<Longrightarrow> in_grid L c" unfolding labelling_inv_def by blast
  from f have dims: "viewWidth L' = viewWidth L" "viewHeight L' = viewHeight L"
    unfolding filled_def by blast+
  from f have frame: "\<And>c. cell L' c = cell L c
              \<or> (in_grid L c \<and> cell L c \<le> 0 \<and> cell L' c = g \<and> cell E c = cell E i)"
    unfolding filled_def by blast
  from f have seed: "cell L' i = g" unfolding filled_def by blast
  have ig: "in_grid L' = in_grid L" by (rule in_grid_cong[OF dims])
  have new: "cell L c \<le> 0 \<and> cell E c = cell E i \<and> in_grid L c" if "cell L' c = g" for c
    using frame[of c] rng[of c] that by auto
  have old: "cell L c = cell L' c" if "cell L' c \<noteq> g" for c
    using frame[of c] that by auto
  show ?thesis
    unfolding labelling_inv_def
  proof (intro conjI allI impI)
    show "1 \<le> g + 1" using g by simp
  next
    fix c show "0 \<le> cell L' c" using frame[of c] rng[of c] g by auto
    show "cell L' c < g + 1" using frame[of c] rng[of c] by auto
  next
    fix l assume l: "1 \<le> l \<and> l < g + 1"
    show "\<exists>c. in_grid L' c \<and> cell L' c = l"
    proof (cases "l = g")
      case True
      then show ?thesis using seed new[of i] ig by auto
    next
      case False
      with l used[of l] obtain c where c: "in_grid L c" "cell L c = l" by auto
      then have "cell L' c = l" using frame[of c] l by auto
      then show ?thesis using c ig by auto
    qed
  next
    fix c d assume a: "0 < cell L' c \<and> cell L' c = cell L' d"
    show "cell E c = cell E d"
    proof (cases "cell L' c = g")
      case True
      then show ?thesis using new[of c] new[of d] a by simp
    next
      case False
      then show ?thesis using old[of c] old[of d] a elev[of c d] by simp
    qed
  next
    fix c assume "0 < cell L' c"
    then show "in_grid L' c" using frame[of c] ing[of c] ig by auto
  qed
qed

text \<open>The loop returns. It keeps \<open>labelling_inv\<close> and every property \<open>P\<close> of the labels
  that each flood fill keeps; positive labels are never overwritten, and every seed ends
  with a positive label.\<close>

lemma label_flats_total:
  assumes "\<forall>i\<in>set seeds. in_grid L i" and "labelling_inv E g L" and "P g L"
    and pres: "\<And>i g L L'. i \<in> set seeds \<Longrightarrow> in_grid L i \<Longrightarrow> cell L i = 0
                 \<Longrightarrow> labelling_inv E g L \<Longrightarrow> P g L \<Longrightarrow> filled E i g L L' \<Longrightarrow> P (g + 1) L'"
  shows "\<exists>g' L'. label_flats E seeds g L = Some (Inr (g', L'))
           \<and> labelling_inv E g' L' \<and> P g' L' \<and> g \<le> g'
           \<and> viewWidth L' = viewWidth L \<and> viewHeight L' = viewHeight L \<and> noData L' = noData L
           \<and> (\<forall>c. 0 < cell L c \<longrightarrow> cell L' c = cell L c)
           \<and> (\<forall>i\<in>set seeds. 0 < cell L' i)"
  using assms
proof (induction seeds arbitrary: g L)
  case Nil
  then show ?case by simp
next
  case (Cons i seeds)
  have gi: "in_grid L i" using Cons.prems(1) by simp
  have rng: "\<And>c. 0 \<le> cell L c" using Cons.prems(2) unfolding labelling_inv_def by blast
  have gpos: "0 < g" using Cons.prems(2) unfolding labelling_inv_def by linarith
  have pres': "P (g + 1) L'"
    if "j \<in> set seeds" "in_grid L j" "cell L j = 0" "labelling_inv E g L" "P g L"
       "filled E j g L L'" for j g L L'
    using Cons.prems(4)[of j L g L'] that by simp
  show ?case
  proof (cases "cell L i = 0")
    case True
    from label_this_filled[OF gi _ gpos, of E] True obtain L1 where f: "filled E i g L L1" by auto
    from f have lt: "label_this (cx i) (cy i) g L E = Some (Inr L1)"
      unfolding filled_def by blast
    from f have dims: "viewWidth L1 = viewWidth L" "viewHeight L1 = viewHeight L" "noData L1 = noData L"
      unfolding filled_def by blast+
    from f have frame: "\<And>c. cell L1 c = cell L c \<or> (cell L c \<le> 0 \<and> cell L1 c = g)"
      unfolding filled_def by blast
    from f have seed: "cell L1 i = g" unfolding filled_def by blast
    have ig: "in_grid L1 = in_grid L" by (rule in_grid_cong[OF dims(1,2)])
    have inv1: "labelling_inv E (g + 1) L1" by (rule labelling_inv_filled[OF Cons.prems(2) f])
    have P1: "P (g + 1) L1" using Cons.prems(4)[OF _ gi True Cons.prems(2,3) f] by simp
    have s1: "\<forall>i\<in>set seeds. in_grid L1 i" using Cons.prems(1) ig by simp
    have "\<exists>g' L'. label_flats E seeds (g + 1) L1 = Some (Inr (g', L'))
           \<and> labelling_inv E g' L' \<and> P g' L' \<and> g + 1 \<le> g'
           \<and> viewWidth L' = viewWidth L1 \<and> viewHeight L' = viewHeight L1 \<and> noData L' = noData L1
           \<and> (\<forall>c. 0 < cell L1 c \<longrightarrow> cell L' c = cell L1 c)
           \<and> (\<forall>i\<in>set seeds. 0 < cell L' i)"
      by (rule Cons.IH[OF s1 inv1 P1]) (rule pres')
    then obtain g' L' where
      r: "label_flats E seeds (g + 1) L1 = Some (Inr (g', L'))"
      "labelling_inv E g' L'" "P g' L'" "g + 1 \<le> g'"
      "viewWidth L' = viewWidth L1" "viewHeight L' = viewHeight L1" "noData L' = noData L1"
      "\<forall>c. 0 < cell L1 c \<longrightarrow> cell L' c = cell L1 c" "\<forall>i\<in>set seeds. 0 < cell L' i"
      by blast
    have "label_flats E (i # seeds) g L = Some (Inr (g', L'))"
      using gi True lt r(1) by simp
    moreover have "\<forall>c. 0 < cell L c \<longrightarrow> cell L' c = cell L c"
    proof (intro allI impI)
      fix c assume "0 < cell L c"
      then have "cell L1 c = cell L c" using frame[of c] by auto
      then show "cell L' c = cell L c" using r(8) \<open>0 < cell L c\<close> by simp
    qed
    moreover have "0 < cell L' i" using seed gpos r(8) by simp
    moreover have "g \<le> g'" using r(4) by simp
    ultimately show ?thesis using r(2,3,5,6,7,9) dims by simp
  next
    case False
    have s1: "\<forall>i\<in>set seeds. in_grid L i" using Cons.prems(1) by simp
    have "\<exists>g' L'. label_flats E seeds g L = Some (Inr (g', L'))
           \<and> labelling_inv E g' L' \<and> P g' L' \<and> g \<le> g'
           \<and> viewWidth L' = viewWidth L \<and> viewHeight L' = viewHeight L \<and> noData L' = noData L
           \<and> (\<forall>c. 0 < cell L c \<longrightarrow> cell L' c = cell L c)
           \<and> (\<forall>i\<in>set seeds. 0 < cell L' i)"
      by (rule Cons.IH[OF s1 Cons.prems(2,3)]) (rule pres')
    then obtain g' L' where
      r: "label_flats E seeds g L = Some (Inr (g', L'))"
      "labelling_inv E g' L'" "P g' L'" "g \<le> g'"
      "viewWidth L' = viewWidth L" "viewHeight L' = viewHeight L" "noData L' = noData L"
      "\<forall>c. 0 < cell L c \<longrightarrow> cell L' c = cell L c" "\<forall>i\<in>set seeds. 0 < cell L' i"
      by blast
    have "label_flats E (i # seeds) g L = Some (Inr (g', L'))"
      using gi False r(1) by simp
    moreover have "0 < cell L i" using False rng[of i] by (simp add: le_less)
    then have "0 < cell L' i" using r(8) by simp
    ultimately show ?thesis using r(2-9) by simp
  qed
qed

lemma labelling_inv_initial: "labelling_inv E 1 (resize_init L F 0)"
  by (auto simp add: labelling_inv_def resize_init_def)


section \<open>find_flat_edges\<close>

lemma scan_neighbours_low:
  "scan_neighbours E F c ns = LowEdge \<longleftrightarrow>
     cell F c \<noteq> NO_FLOW
     \<and> (\<exists>n\<in>set ns. in_grid F (nbr c n) \<and> cell F (nbr c n) \<noteq> noData F
            \<and> cell F (nbr c n) = NO_FLOW \<and> cell E (nbr c n) = cell E c)"
  by (induction ns) (auto simp: Let_def)

lemma scan_neighbours_high:
  "scan_neighbours E F c ns = HighEdge \<longleftrightarrow>
     cell F c = NO_FLOW
     \<and> (\<exists>n\<in>set ns. in_grid F (nbr c n) \<and> cell F (nbr c n) \<noteq> noData F
            \<and> cell E c < cell E (nbr c n))"
  by (induction ns) (auto simp: Let_def)

lemma edge_body_fold:
  "foldl (edge_body E F) (lo, hi) xs =
     (lo @ filter (is_low_edge E F) xs, hi @ filter (is_high_edge E F) xs)"
proof (induction xs arbitrary: lo hi)
  case Nil
  show ?case by simp
next
  case (Cons c xs)
  have "edge_body E F (lo, hi) c =
          (if is_low_edge E F c then lo @ [c] else lo, if is_high_edge E F c then hi @ [c] else hi)"
    using scan_neighbours_low[of E F c dirs] scan_neighbours_high[of E F c dirs]
    by (cases "scan_neighbours E F c dirs")
       (auto simp: edge_body_def is_low_edge_def is_high_edge_def)
  then show ?case using Cons.IH by simp
qed

lemma find_flat_edges_filter:
  "find_flat_edges F E =
     (filter (is_low_edge E F) (all_cells F), filter (is_high_edge E F) (all_cells F))"
  by (simp add: find_flat_edges_def edge_body_fold)

lemma low_edges_set: "set (low_edges_of E F) = {c. in_grid F c \<and> is_low_edge E F c}"
  by (auto simp: find_flat_edges_filter set_all_cells)

lemma high_edges_set: "set (high_edges_of E F) = {c. in_grid F c \<and> is_high_edge E F c}"
  by (auto simp: find_flat_edges_filter set_all_cells)

section \<open>The stages of resolve_flats_barnes return\<close>

lemma resolve_flats_barnes_stages:
  assumes "low_edges_of E F \<noteq> []"
    and "label_flats E (low_edges_of E F) 1 (initial_labels L_in F) = Some (Inr (g, L))"
    and "BuildAwayGradient F (initial_mask M_in E) (pruned_high_edges E F L)
           (replicate (nat g) 0) L = Some (Inr a)"
    and "BuildTowardsCombinedGradient F (flat_mask a) (low_edges_of E F) (flat_height a) L
           = Some (Inr t)"
  shows "resolve_flats_barnes E F M_in L_in =
           Some (Inr \<lparr>res_flat_mask = flat_mask t, res_labels = L,
                      res_diag = (if length (pruned_high_edges E F L) < length (high_edges_of E F)
                                  then [NotAllFlatsHaveOutlets] else [])\<rparr>)"
  using assms
  by (cases "find_flat_edges F E") (simp add: resolve_flats_barnes_def Let_def)

lemma labelling_inv_range: "labelling_inv E g L \<Longrightarrow> labels_in_range L (nat g)"
  unfolding labelling_inv_def labels_in_range_def by auto

lemma stage_labelling:
  "\<exists>g L. label_flats E (low_edges_of E F) 1 (initial_labels L_in F) = Some (Inr (g, L))
         \<and> labelling_inv E g L \<and> viewWidth L = viewWidth F \<and> viewHeight L = viewHeight F
         \<and> (\<forall>i\<in>set (low_edges_of E F). 0 < cell L i)"
proof -
  have g: "\<forall>i\<in>set (low_edges_of E F). in_grid (initial_labels L_in F) i"
    by (simp add: low_edges_set in_grid_def resize_init_def)
  have "\<exists>g' L'. label_flats E (low_edges_of E F) 1 (initial_labels L_in F) = Some (Inr (g', L'))
           \<and> labelling_inv E g' L' \<and> True \<and> 1 \<le> g'
           \<and> viewWidth L' = viewWidth (initial_labels L_in F)
           \<and> viewHeight L' = viewHeight (initial_labels L_in F)
           \<and> noData L' = noData (initial_labels L_in F)
           \<and> (\<forall>c. 0 < cell (initial_labels L_in F) c \<longrightarrow> cell L' c = cell (initial_labels L_in F) c)
           \<and> (\<forall>i\<in>set (low_edges_of E F). 0 < cell L' i)"
    by (rule label_flats_total[where P = "\<lambda>_ _. True", OF g labelling_inv_initial]) simp_all
  then show ?thesis by (auto simp: resize_init_def)
qed

lemma stage_away:
  assumes dims: "viewWidth E = viewWidth F" "viewHeight E = viewHeight F"
    and L: "labelling_inv E g L" "viewWidth L = viewWidth F" "viewHeight L = viewHeight F"
  shows "\<exists>a. BuildAwayGradient F (initial_mask M_in E) (pruned_high_edges E F L)
                (replicate (nat g) 0) L = Some (Inr a)
            \<and> away_inv1 L (initial_mask M_in E) (nat g) a \<and> edges a = [iteration_marker]"
proof -
  let ?M0 = "initial_mask M_in E" and ?H0 = "replicate (nat g) (0::int)"
  have ig: "in_grid L = in_grid F" by (rule in_grid_cong[OF L(2,3)])
  have seeds: "\<forall>c\<in>set (pruned_high_edges E F L). in_grid L c"
    using high_edges_set[where E = E and F = F] ig by auto
  have init: "away_inv1 L ?M0 (length ?H0)
           \<lparr>edges = pruned_high_edges E F L @ [iteration_marker], loops = 1, flat_mask = ?M0,
            flat_height = ?H0\<rparr>"
    by (rule away_inv1_initial)
       (use dims L seeds labelling_inv_range[OF L(1)] in \<open>simp_all add: resize_init_def\<close>)
  have "\<exists>a. while_loop (\<lambda>s. length (edges s) \<noteq> 1) (away_body F L)
               \<lparr>edges = pruned_high_edges E F L @ [iteration_marker], loops = 1, flat_mask = ?M0,
                flat_height = ?H0\<rparr> = Some (Inr a)
           \<and> away_inv1 L ?M0 (length ?H0) a \<and> \<not> length (edges a) \<noteq> 1"
    by (rule while_loop_total[where m = bfs_measure and I = "away_inv1 L ?M0 (length ?H0)"])
       (rule init, rule away_step1)
  then obtain a where a: "BuildAwayGradient F ?M0 (pruned_high_edges E F L) ?H0 L = Some (Inr a)"
    "away_inv1 L ?M0 (nat g) a" "\<not> length (edges a) \<noteq> 1"
    by (auto simp: BuildAwayGradient_def)
  from final_queue(1)[OF away_inv1D(4)[OF a(2)] a(3)] a(1,2) show ?thesis by blast
qed

lemma negated_away_mask:
  assumes a: "away_inv1 L M0 n a" and z: "\<forall>c. cell M0 c = 0"
  shows "\<forall>c. cell (negate_mask (flat_mask a)) c \<le> 0"
    and "\<forall>c. cell (negate_mask (flat_mask a)) c < 0
            \<longrightarrow> 0 \<le> flat_height a ! nat (cell L c) + cell (negate_mask (flat_mask a)) c"
proof -
  note d = away_inv1D[OF a]
  have ig: "in_grid (flat_mask a) = in_grid L" by (rule away_inv1_in_grid[OF a])
  have nn: "0 \<le> cell (flat_mask a) c" for c using d(8)[of c] z by auto
  have outside: "cell (flat_mask a) c = 0" if "\<not> in_grid L c" for c
    using d(8)[of c] z that by auto
  show "\<forall>c. cell (negate_mask (flat_mask a)) c \<le> 0"
    using nn outside ig by (auto simp: negate_mask_def)
  show "\<forall>c. cell (negate_mask (flat_mask a)) c < 0
            \<longrightarrow> 0 \<le> flat_height a ! nat (cell L c) + cell (negate_mask (flat_mask a)) c"
  proof (intro allI impI)
    fix c assume neg: "cell (negate_mask (flat_mask a)) c < 0"
    then have "in_grid L c" using outside[of c] ig by (auto simp: negate_mask_def split: if_splits)
    then have v: "cell (negate_mask (flat_mask a)) c = - cell (flat_mask a) c"
      using ig by (simp add: negate_mask_def)
    with neg have "0 < cell (flat_mask a) c" by simp
    then have "cell (flat_mask a) c \<le> flat_height a ! nat (cell L c)" using d(9)[of c] z by simp
    with v show "0 \<le> flat_height a ! nat (cell L c) + cell (negate_mask (flat_mask a)) c" by simp
  qed
qed

lemma stage_towards:
  assumes a: "away_inv1 L (initial_mask M_in E) (nat g) a"
    and L: "viewWidth L = viewWidth F" "viewHeight L = viewHeight F"
  shows "\<exists>t. BuildTowardsCombinedGradient F (flat_mask a) (low_edges_of E F) (flat_height a) L
                = Some (Inr t)
            \<and> tow_inv1 L (negate_mask (flat_mask a)) (flat_height a) t
            \<and> edges t = [iteration_marker]"
proof -
  let ?M1 = "negate_mask (flat_mask a)" and ?H = "flat_height a"
  note d = away_inv1D[OF a]
  have ig: "in_grid L = in_grid F" by (rule in_grid_cong[OF L])
  have seeds: "\<forall>c\<in>set (low_edges_of E F). in_grid L c"
    using low_edges_set[where E = E and F = F] ig by auto
  have z: "\<forall>c. cell (initial_mask M_in E) c = 0" by (simp add: resize_init_def)
  have init: "tow_inv1 L ?M1 ?H
           \<lparr>edges = low_edges_of E F @ [iteration_marker], loops = 1, flat_mask = ?M1,
            flat_height = ?H\<rparr>"
    by (rule tow_inv1_initial)
       (use d seeds negated_away_mask(2)[OF a z] in \<open>simp_all add: negate_mask_def\<close>)
  have "\<exists>t. while_loop (\<lambda>s. length (edges s) \<noteq> 1) (towards_body F L)
               \<lparr>edges = low_edges_of E F @ [iteration_marker], loops = 1, flat_mask = ?M1,
                flat_height = ?H\<rparr> = Some (Inr t)
           \<and> tow_inv1 L ?M1 ?H t \<and> \<not> length (edges t) \<noteq> 1"
    by (rule while_loop_total[where m = bfs_measure and I = "tow_inv1 L ?M1 ?H"])
       (rule init, rule towards_step1)
  then obtain t where t: "BuildTowardsCombinedGradient F (flat_mask a) (low_edges_of E F) ?H L
       = Some (Inr t)" "tow_inv1 L ?M1 ?H t" "\<not> length (edges t) \<noteq> 1"
    by (auto simp: BuildTowardsCombinedGradient_def)
  from final_queue(1)[OF tow_inv1D(4)[OF t(2)] t(3)] t(1,2) show ?thesis by blast
qed

lemma away_start_inv:
  assumes dims: "viewWidth E = viewWidth F" "viewHeight E = viewHeight F"
    and L: "labelling_inv E g L" "viewWidth L = viewWidth F" "viewHeight L = viewHeight F"
  shows "away_inv1 L (initial_mask M_in E) (nat g)
           (away_start (pruned_high_edges E F L) (initial_mask M_in E) (replicate (nat g) 0))"
proof -
  have ig: "in_grid L = in_grid F" by (rule in_grid_cong[OF L(2,3)])
  have seeds: "\<forall>c\<in>set (pruned_high_edges E F L). in_grid L c"
    using high_edges_set[where E = E and F = F] ig by auto
  have "away_inv1 L (initial_mask M_in E) (length (replicate (nat g) (0::int)))
           (away_start (pruned_high_edges E F L) (initial_mask M_in E) (replicate (nat g) 0))"
    by (rule away_inv1_initial)
       (use dims L seeds labelling_inv_range[OF L(1)] in \<open>simp_all add: resize_init_def\<close>)
  then show ?thesis by simp
qed

lemma towards_start_inv:
  assumes a: "away_inv1 L (initial_mask M_in E) (nat g) a"
    and L: "viewWidth L = viewWidth F" "viewHeight L = viewHeight F"
  shows "tow_inv1 L (negate_mask (flat_mask a)) (flat_height a)
           (towards_start (low_edges_of E F) (flat_mask a) (flat_height a))"
proof -
  note d = away_inv1D[OF a]
  have ig: "in_grid L = in_grid F" by (rule in_grid_cong[OF L])
  have seeds: "\<forall>c\<in>set (low_edges_of E F). in_grid L c"
    using low_edges_set[where E = E and F = F] ig by auto
  have z: "\<forall>c. cell (initial_mask M_in E) c = 0" by (simp add: resize_init_def)
  show ?thesis
    by (rule tow_inv1_initial)
       (use d seeds negated_away_mask(2)[OF a z] in \<open>simp_all add: negate_mask_def\<close>)
qed

lemma away_inv1_steps:
  assumes "steps bfs_cont (away_body F L) s0 s" "away_inv1 L M0 n s0"
  shows "away_inv1 L M0 n s"
  using assms(1,2)
proof (rule steps_invariant)
  fix s s' assume "away_inv1 L M0 n s" "length (edges s) \<noteq> 1" "away_body F L s = Inr s'"
  then show "away_inv1 L M0 n s'" using away_step1[of L M0 n s F] by auto
qed

lemma tow_inv1_steps:
  assumes "steps bfs_cont (towards_body F L) s0 s" "tow_inv1 L Ms H s0"
  shows "tow_inv1 L Ms H s"
  using assms(1,2)
proof (rule steps_invariant)
  fix s s' assume "tow_inv1 L Ms H s" "length (edges s) \<noteq> 1" "towards_body F L s = Inr s'"
  then show "tow_inv1 L Ms H s'" using towards_step1[of L Ms H s F] by auto
qed

lemma wf_queue_labels:
  assumes "wf_queue L q" "labels_in_range L n" "c \<in> set q" "cx c \<noteq> -1"
  shows "in_grid L c" "0 \<le> cell L c" "cell L c < int n"
proof -
  have "c \<in> set (cur_part q) \<union> set (nxt_part q)"
    using arg_cong[OF wf_queue_split(1)[OF assms(1)], of set] assms(3,4) by auto
  then show "in_grid L c" using wf_queue_split(2)[OF assms(1)] by blast
  show "0 \<le> cell L c" "cell L c < int n" using assms(2) by (simp_all add: labels_in_range_def)
qed

lemma label_count_labelling_inv:
  assumes "labelling_inv E g L"
  shows "int (label_count L) = g - 1"
proof -
  from assms have g: "1 \<le> g" unfolding labelling_inv_def by blast
  from assms have rng: "\<And>c. cell L c < g" unfolding labelling_inv_def by blast
  from assms have used: "\<And>l. 1 \<le> l \<Longrightarrow> l < g \<Longrightarrow> \<exists>c. in_grid L c \<and> cell L c = l"
    unfolding labelling_inv_def by blast
  have "set (filter (\<lambda>l. 0 < l) (map (cell L) (all_cells L))) = {1..g - 1}"
  proof (rule set_eqI)
    fix l
    show "l \<in> set (filter (\<lambda>l. 0 < l) (map (cell L) (all_cells L))) \<longleftrightarrow> l \<in> {1..g - 1}"
      using rng used[of l] by (auto simp: set_all_cells)
  qed
  then have "label_count L = card {1..g - 1}"
    unfolding label_count_def by (simp only: length_remdups_card_conv)
  then show ?thesis using g by simp
qed

lemma label_flats_append:
  "label_flats E (xs @ ys) g L =
     (case label_flats E xs g L of
        None \<Rightarrow> None
      | Some (Inl e) \<Rightarrow> Some (Inl e)
      | Some (Inr (g1, L1)) \<Rightarrow> label_flats E ys g1 L1)"
proof (induction xs arbitrary: g L)
  case Nil
  show ?case by simp
next
  case (Cons i xs)
  show ?case
  proof (cases "in_grid L i")
    case False
    then show ?thesis by simp
  next
    case g: True
    show ?thesis
    proof (cases "cell L i = 0")
      case False
      with g show ?thesis by (simp add: Cons.IH)
    next
      case True
      show ?thesis
      proof (cases "label_this (cx i) (cy i) g L E")
        case None
        with g True show ?thesis by simp
      next
        case (Some r)
        show ?thesis using g True Some by (cases r) (simp_all add: Cons.IH)
      qed
    qed
  qed
qed

lemma label_flats_total_plain:
  assumes "\<forall>i\<in>set seeds. in_grid L i" and "labelling_inv E g L"
  shows "\<exists>g' L'. label_flats E seeds g L = Some (Inr (g', L'))
           \<and> labelling_inv E g' L'
           \<and> viewWidth L' = viewWidth L \<and> viewHeight L' = viewHeight L
           \<and> (\<forall>c. 0 < cell L c \<longrightarrow> cell L' c = cell L c)"
proof -
  have "\<exists>g' L'. label_flats E seeds g L = Some (Inr (g', L'))
           \<and> labelling_inv E g' L' \<and> True \<and> g \<le> g'
           \<and> viewWidth L' = viewWidth L \<and> viewHeight L' = viewHeight L \<and> noData L' = noData L
           \<and> (\<forall>c. 0 < cell L c \<longrightarrow> cell L' c = cell L c)
           \<and> (\<forall>i\<in>set seeds. 0 < cell L' i)"
    by (rule label_flats_total[where P = "\<lambda>_ _. True", OF assms]) simp_all
  then show ?thesis by blast
qed

lemma low_edges_s2: "low_edges_of E_s2 F_s2 = [Cell 3 1, Cell 3 2, Cell 3 3]"
  by (simp add: find_flat_edges_def edge_body_def F_s2_def E_s2_def eval_defs)


section \<open>BuildAwayGradient computes breadth-first depths\<close>

lemma hops_0: "hops F L S 0 c \<longleftrightarrow> c \<in> S"
  by (auto elim: hops.cases intro: hops_seed)

lemma hops_Suc: "hops F L S (Suc k) n \<longleftrightarrow> (\<exists>p. hops F L S k p \<and> n \<in> set (pushed F L p))"
  by (auto elim: hops.cases intro: hops_step)

subsection \<open>Neighbouring depths differ by at most one\<close>

lemma away_lip_marker:
  assumes "away_lip F L M [] nxt lp"
  shows "away_lip F L M nxt [] (lp + 1)"
  using assms unfolding away_lip_def by fastforce

lemma away_lip_skip:
  assumes "away_lip F L M (c0 # cur) nxt lp" "0 < M c0"
  shows "away_lip F L M cur nxt lp"
  unfolding away_lip_def
proof (intro allI impI)
  fix p n assume p: "0 < M p" "n \<in> set (pushed F L p)"
  with assms(1) have "(0 < M n \<and> M n \<le> M p + 1)
        \<or> (M n \<le> 0 \<and> ((M p = lp \<and> n \<in> set nxt) \<or> (M p + 1 = lp \<and> n \<in> set (c0 # cur))))"
    unfolding away_lip_def by blast
  then show "(0 < M n \<and> M n \<le> M p + 1)
        \<or> (M n \<le> 0 \<and> ((M p = lp \<and> n \<in> set nxt) \<or> (M p + 1 = lp \<and> n \<in> set cur)))"
    using assms(2) by auto
qed

lemma away_lip_assign:
  assumes l: "away_lip F L M (c0 # cur) nxt lp" and u: "\<not> 0 < M c0"
    and b: "\<And>c. 0 < M c \<Longrightarrow> M c \<le> lp" and lp: "0 < lp"
  shows "away_lip F L (M(c0 := lp)) cur (nxt @ pushed F L c0) lp"
  unfolding away_lip_def
proof (intro allI impI)
  let ?M = "M(c0 := lp)"
  fix p n assume p: "0 < ?M p" and n: "n \<in> set (pushed F L p)"
  have b': "?M c \<le> lp" if "0 < ?M c" for c using b[of c] that by (auto split: if_splits)
  show "(0 < ?M n \<and> ?M n \<le> ?M p + 1)
        \<or> (?M n \<le> 0 \<and> ((?M p = lp \<and> n \<in> set (nxt @ pushed F L c0))
                         \<or> (?M p + 1 = lp \<and> n \<in> set cur)))"
  proof (cases "p = c0")
    case True
    then show ?thesis using n b'[of n] by auto
  next
    case False
    with p have "0 < M p" by simp
    with l n have old: "(0 < M n \<and> M n \<le> M p + 1)
        \<or> (M n \<le> 0 \<and> ((M p = lp \<and> n \<in> set nxt) \<or> (M p + 1 = lp \<and> n \<in> set (c0 # cur))))"
      unfolding away_lip_def by blast
    show ?thesis
    proof (cases "n = c0")
      case True
      then show ?thesis using old u False lp by auto
    next
      case n0: False
      then show ?thesis using old False by auto
    qed
  qed
qed

subsection \<open>A positive mask is the length of a path from a seed\<close>

lemma away_sound_marker:
  assumes "away_sound F L S M [] nxt lp"
  shows "away_sound F L S M nxt [] (lp + 1)"
  using assms unfolding away_sound_def by simp

lemma away_sound_skip:
  assumes "away_sound F L S M (c0 # cur) nxt lp"
  shows "away_sound F L S M cur nxt lp"
  using assms unfolding away_sound_def by simp

lemma away_sound_assign:
  assumes s: "away_sound F L S M (c0 # cur) nxt lp" and lp: "0 < lp"
  shows "away_sound F L S (M(c0 := lp)) cur (nxt @ pushed F L c0) lp"
proof -
  from s have c0: "hops F L S (nat (lp - 1)) c0" unfolding away_sound_def by simp
  have "hops F L S (nat lp) n" if "n \<in> set (pushed F L c0)" for n
  proof -
    have "nat lp = Suc (nat (lp - 1))" using lp by simp
    then show ?thesis using hops_step[OF c0 that] by simp
  qed
  then show ?thesis using s c0 unfolding away_sound_def by auto
qed

subsection \<open>No shorter path exists\<close>

lemma away_min_marker:
  assumes m: "away_min F L S M [] lp" and l: "away_lip F L M [] nxt lp"
    and b: "\<And>c. 0 < M c \<Longrightarrow> M c \<le> lp" and lp: "0 < lp"
  shows "away_min F L S M nxt (lp + 1)"
  unfolding away_min_def
proof (intro allI impI)
  fix k c assume h: "hops F L S k c" and k: "int k + 1 \<le> lp + 1"
  show "(0 < M c \<and> M c \<le> int k + 1) \<or> (int k + 1 = lp + 1 \<and> c \<in> set nxt)"
  proof (cases "int k + 1 \<le> lp")
    case True
    with m h show ?thesis unfolding away_min_def by fastforce
  next
    case False
    with k have kl: "int k = lp" by simp
    with lp obtain k' where k': "k = Suc k'" by (cases k) auto
    with h obtain p where p: "hops F L S k' p" "c \<in> set (pushed F L p)"
      by (auto simp: hops_Suc)
    from k' kl have "int k' + 1 \<le> lp" by simp
    with m p(1) have mp: "0 < M p" "M p \<le> int k' + 1" unfolding away_min_def by fastforce+
    from l mp(1) p(2) have "(0 < M c \<and> M c \<le> M p + 1)
        \<or> (M c \<le> 0 \<and> ((M p = lp \<and> c \<in> set nxt) \<or> (M p + 1 = lp \<and> c \<in> set [])))"
      unfolding away_lip_def by blast
    then show ?thesis using mp k' kl by auto
  qed
qed

lemma away_min_skip:
  assumes m: "away_min F L S M (c0 # cur) lp" and p: "0 < M c0" and b: "M c0 \<le> lp"
  shows "away_min F L S M cur lp"
  unfolding away_min_def
proof (intro allI impI)
  fix k c assume h: "hops F L S k c" and k: "int k + 1 \<le> lp"
  with m have "(0 < M c \<and> M c \<le> int k + 1) \<or> (int k + 1 = lp \<and> c \<in> set (c0 # cur))"
    unfolding away_min_def by blast
  then show "(0 < M c \<and> M c \<le> int k + 1) \<or> (int k + 1 = lp \<and> c \<in> set cur)"
    using p b by auto
qed

lemma away_min_assign:
  assumes m: "away_min F L S M (c0 # cur) lp" and u: "\<not> 0 < M c0"
  shows "away_min F L S (M(c0 := lp)) cur lp"
  unfolding away_min_def
proof (intro allI impI)
  fix k c assume h: "hops F L S k c" and k: "int k + 1 \<le> lp"
  with m have "(0 < M c \<and> M c \<le> int k + 1) \<or> (int k + 1 = lp \<and> c \<in> set (c0 # cur))"
    unfolding away_min_def by blast
  then show "(0 < (M(c0 := lp)) c \<and> (M(c0 := lp)) c \<le> int k + 1)
             \<or> (int k + 1 = lp \<and> c \<in> set cur)"
    using u k by auto
qed

subsection \<open>flat_height holds the greatest depth of its label\<close>

lemma away_height_assign:
  assumes h: "away_height L M H H0" and u: "\<not> 0 < M c0" and lp: "0 < lp"
    and r: "0 \<le> cell L c0" "cell L c0 < int (length H)"
  shows "away_height L (M(c0 := lp)) (H[nat (cell L c0) := lp]) H0"
  unfolding away_height_def
proof (intro allI impI)
  let ?M = "M(c0 := lp)" and ?H = "H[nat (cell L c0) := lp]"
  fix l assume l: "0 \<le> l" "l < int (length ?H)"
  show "(?H ! nat l = H0 ! nat l \<and> (\<forall>c. cell L c = l \<longrightarrow> ?M c \<le> 0))
        \<or> (\<exists>c. cell L c = l \<and> 0 < ?M c \<and> ?M c = ?H ! nat l)"
  proof (cases "l = cell L c0")
    case True
    then have "cell L c0 = l \<and> 0 < ?M c0 \<and> ?M c0 = ?H ! nat l" using lp r by simp
    then show ?thesis by blast
  next
    case False
    then have ne: "nat l \<noteq> nat (cell L c0)" using l r by auto
    from h l have "(H ! nat l = H0 ! nat l \<and> (\<forall>c. cell L c = l \<longrightarrow> M c \<le> 0))
        \<or> (\<exists>c. cell L c = l \<and> 0 < M c \<and> M c = H ! nat l)"
      unfolding away_height_def by simp
    then show ?thesis
    proof
      assume "H ! nat l = H0 ! nat l \<and> (\<forall>c. cell L c = l \<longrightarrow> M c \<le> 0)"
      then have "?H ! nat l = H0 ! nat l \<and> (\<forall>c. cell L c = l \<longrightarrow> ?M c \<le> 0)"
        using ne False by auto
      then show ?thesis ..
    next
      assume "\<exists>c. cell L c = l \<and> 0 < M c \<and> M c = H ! nat l"
      then obtain c where c: "cell L c = l" "0 < M c" "M c = H ! nat l" by blast
      then have "c \<noteq> c0" using u by auto
      then have "cell L c = l \<and> 0 < ?M c \<and> ?M c = ?H ! nat l" using c ne by simp
      then show ?thesis by blast
    qed
  qed
qed

subsection \<open>The loop keeps the four parts\<close>

lemma away_inv1_bound:
  assumes "away_inv1 L M0 n s" "\<forall>c. cell M0 c \<le> 0" "0 < cell (flat_mask s) c"
  shows "cell (flat_mask s) c \<le> loops s" "in_grid L c"
  using away_inv1D(8)[OF assms(1), of c] assms(2,3) by (auto simp: not_less[symmetric])

lemma away_step2:
  assumes i1: "away_inv1 L M0 n s" and z: "\<forall>c. cell M0 c \<le> 0"
    and i2: "away_inv2 F L S H0 s" and cont: "length (edges s) \<noteq> 1"
    and b: "away_body F L s = Inr s'"
  shows "away_inv2 F L S H0 s'"
proof -
  note d = away_inv1D[OF i1]
  let ?M = "cell (flat_mask s)"
  from i2 have lip: "away_lip F L ?M (cur_part (edges s)) (nxt_part (edges s)) (loops s)"
    and snd: "away_sound F L S ?M (cur_part (edges s)) (nxt_part (edges s)) (loops s)"
    and mn: "away_min F L S ?M (cur_part (edges s)) (loops s)"
    and ht: "away_height L ?M (flat_height s) H0"
    unfolding away_inv2_def by blast+
  have bound: "\<And>c. 0 < ?M c \<Longrightarrow> ?M c \<le> loops s" using away_inv1_bound(1)[OF i1 z] .
  have lp: "0 < loops s" using d(5) by simp
  from d(4) show ?thesis
  proof (cases rule: wf_queue_front)
    case marker
    let ?s' = "s\<lparr>edges := nxt_part (edges s) @ [iteration_marker], loops := loops s + 1\<rparr>"
    have s': "s' = ?s'" using away_body_marker(1)[OF i1 cont marker(1), of F] b by simp
    have parts: "cur_part (edges ?s') = nxt_part (edges s)" "nxt_part (edges ?s') = []"
      using wf_queue_after_marker(2,3)[OF d(4) marker(1)] by simp_all
    show ?thesis
      unfolding s' away_inv2_def parts
      using away_lip_marker[OF lip[unfolded marker(1)]]
        away_sound_marker[OF snd[unfolded marker(1)]]
        away_min_marker[OF mn[unfolded marker(1)] lip[unfolded marker(1)] bound lp] ht
      by simp
  next
    case (front c rest)
    note lip' = lip[unfolded front(5,6)] and snd' = snd[unfolded front(5,6)]
      and mn' = mn[unfolded front(5)]
    show ?thesis
    proof (cases "0 < ?M c")
      case True
      have s': "s' = s\<lparr>edges := rest\<rparr>"
        using away_body_skip(1)[OF i1 front(1,3) True, of F] b by simp
      show ?thesis
        unfolding s' away_inv2_def
        using away_lip_skip[OF lip' True] away_sound_skip[OF snd']
          away_min_skip[OF mn' True bound[OF True]] ht
        by simp
    next
      case False
      let ?s' = "\<lparr>edges = rest @ pushed F L c, loops = loops s,
                  flat_mask = (flat_mask s)\<lparr>cell := (cell (flat_mask s))(c := loops s)\<rparr>,
                  flat_height = (flat_height s)[nat (cell L c) := loops s]\<rparr>"
      have s': "s' = ?s'" using away_body_assign(1)[OF i1 front(1,3) False, of F] b by simp
      have pg: "\<forall>x\<in>set (pushed F L c). in_grid L x" using pushed_in_grid by blast
      have parts: "cur_part (edges ?s') = cur_part rest"
        "nxt_part (edges ?s') = nxt_part rest @ pushed F L c"
        using wf_queue_push(2,3)[OF front(4) pg] by simp_all
      have rng: "0 \<le> cell L c" "cell L c < int (length (flat_height s))"
        using d(6,7) by (simp_all add: labels_in_range_def)
      show ?thesis
        unfolding s' away_inv2_def parts
        using away_lip_assign[OF lip' False bound lp] away_sound_assign[OF snd' lp]
          away_min_assign[OF mn' False] away_height_assign[OF ht False lp rng]
        by simp
    qed
  qed
qed

lemma away_inv2_initial:
  assumes "\<forall>c. cell M0 c \<le> 0" "\<forall>c\<in>set edges0. in_grid L c"
  shows "away_inv2 F L (set edges0) H0 (away_start edges0 M0 H0)"
proof -
  have parts: "cur_part (edges0 @ [iteration_marker]) = edges0"
    "nxt_part (edges0 @ [iteration_marker]) = []"
    using wf_queue_parts(2,3)[of edges0 "[]" L] assms(2) by simp_all
  have "away_lip F L (cell M0) edges0 [] 1"
    using assms(1) unfolding away_lip_def by (auto simp: not_less[symmetric])
  moreover have "away_sound F L (set edges0) (cell M0) edges0 [] 1"
    using assms(1) unfolding away_sound_def by (auto simp: not_less[symmetric] hops_0)
  moreover have "away_min F L (set edges0) (cell M0) edges0 1"
    unfolding away_min_def by (auto simp: hops_0)
  moreover have "away_height L (cell M0) H0 H0"
    using assms(1) unfolding away_height_def by simp
  ultimately show ?thesis unfolding away_inv2_def by (simp add: parts)
qed

text \<open>\<^verbatim>\<open>BuildAwayGradient\<close> returns, with both invariants and the queue reduced to the
  marker.\<close>

lemma BuildAwayGradient_total:
  assumes dims: "viewWidth M0 = viewWidth L" "viewHeight M0 = viewHeight L"
    and seeds: "\<forall>c\<in>set edges0. in_grid L c" and rng: "labels_in_range L (length H0)"
    and z: "\<forall>c. cell M0 c \<le> 0"
  shows "\<exists>a. BuildAwayGradient F M0 edges0 H0 L = Some (Inr a)
            \<and> away_inv1 L M0 (length H0) a \<and> away_inv2 F L (set edges0) H0 a
            \<and> cur_part (edges a) = [] \<and> nxt_part (edges a) = []"
proof -
  have "\<exists>a. while_loop bfs_cont (away_body F L) (away_start edges0 M0 H0) = Some (Inr a)
           \<and> away_inv1 L M0 (length H0) a \<and> away_inv2 F L (set edges0) H0 a \<and> \<not> bfs_cont a"
  proof (rule while_loop_total2[where m = bfs_measure])
    show "away_inv1 L M0 (length H0) (away_start edges0 M0 H0)"
      by (rule away_inv1_initial[OF dims seeds rng])
    show "away_inv2 F L (set edges0) H0 (away_start edges0 M0 H0)"
      by (rule away_inv2_initial[OF z seeds])
    show "\<exists>s'. away_body F L s = Inr s' \<and> away_inv1 L M0 (length H0) s'
                \<and> bfs_measure s' < bfs_measure s"
      if "away_inv1 L M0 (length H0) s" "bfs_cont s" for s
      using that by (rule away_step1)
    show "away_inv2 F L (set edges0) H0 s'"
      if "away_inv1 L M0 (length H0) s" "away_inv2 F L (set edges0) H0 s" "bfs_cont s"
        "away_body F L s = Inr s'" for s s'
      using that(1) z that(2,3,4) by (rule away_step2)
  qed
  then obtain a where a: "BuildAwayGradient F M0 edges0 H0 L = Some (Inr a)"
    "away_inv1 L M0 (length H0) a" "away_inv2 F L (set edges0) H0 a" "\<not> length (edges a) \<noteq> 1"
    by (auto simp: BuildAwayGradient_def)
  from final_queue(2,3)[OF away_inv1D(4)[OF a(2)] a(4)] a(1,2,3) show ?thesis by blast
qed

text \<open>What the invariants say when the loop has ended.\<close>

lemma away_final:
  assumes i1: "away_inv1 L M0 n a" and i2: "away_inv2 F L S H0 a"
    and e: "cur_part (edges a) = []" "nxt_part (edges a) = []" and z: "\<forall>c. cell M0 c \<le> 0"
  shows "\<And>p c. 0 < cell (flat_mask a) p \<Longrightarrow> c \<in> set (pushed F L p)
            \<Longrightarrow> 0 < cell (flat_mask a) c \<and> cell (flat_mask a) c \<le> cell (flat_mask a) p + 1"
    and "\<And>c. 0 < cell (flat_mask a) c \<Longrightarrow> hops F L S (nat (cell (flat_mask a) c - 1)) c"
    and "\<And>k c. hops F L S k c
            \<Longrightarrow> 0 < cell (flat_mask a) c \<and> cell (flat_mask a) c \<le> int k + 1"
    and "away_height L (cell (flat_mask a)) (flat_height a) H0"
proof -
  let ?A = "cell (flat_mask a)"
  from i2 have lip: "away_lip F L ?A [] [] (loops a)"
    and snd: "away_sound F L S ?A [] [] (loops a)"
    and mn: "away_min F L S ?A [] (loops a)"
    and ht: "away_height L ?A (flat_height a) H0"
    unfolding away_inv2_def e by blast+
  show lip': "0 < ?A c \<and> ?A c \<le> ?A p + 1" if "0 < ?A p" "c \<in> set (pushed F L p)" for p c
    using lip that unfolding away_lip_def by fastforce
  show "hops F L S (nat (?A c - 1)) c" if "0 < ?A c" for c
    using snd that unfolding away_sound_def by blast
  have lp: "1 \<le> loops a" using away_inv1D(5)[OF i1] .
  have pos: "0 < ?A c" if "hops F L S k c" for k c
    using that
  proof (induction rule: hops.induct)
    case (hops_seed c)
    then have "hops F L S 0 c" by (rule hops.hops_seed)
    with mn lp show ?case unfolding away_min_def by fastforce
  next
    case (hops_step k p n)
    then show ?case using lip' by blast
  qed
  show "0 < ?A c \<and> ?A c \<le> int k + 1" if "hops F L S k c" for k c
  proof (cases "int k + 1 \<le> loops a")
    case True
    with mn that show ?thesis unfolding away_min_def by fastforce
  next
    case False
    with pos[OF that] away_inv1_bound(1)[OF i1 z, of c] show ?thesis by simp
  qed
  show "away_height L ?A (flat_height a) H0" by (rule ht)
qed


section \<open>BuildTowardsCombinedGradient: every assigned cell has a predecessor\<close>

subsection \<open>The value of an assigned cell\<close>

lemma tow_value_mono:
  assumes "tow_value F L H S M1 M lp" "lp \<le> lp'"
  shows "tow_value F L H S M1 M lp'"
  unfolding tow_value_def
proof (intro allI impI)
  fix c assume "0 < M c"
  with assms(1) obtain B where "1 \<le> B" "B \<le> lp" "M c = towards_value H L c (cell M1 c) B"
    "(B = 1 \<and> c \<in> S) \<or> (2 \<le> B \<and> (\<exists>p. c \<in> set (pushed F L p) \<and> 0 < M p
                                  \<and> M p = towards_value H L p (cell M1 p) (B - 1)))"
    unfolding tow_value_def by blast
  with assms(2) show "\<exists>B. 1 \<le> B \<and> B \<le> lp' \<and> M c = towards_value H L c (cell M1 c) B
             \<and> ((B = 1 \<and> c \<in> S)
                 \<or> (2 \<le> B \<and> (\<exists>p. c \<in> set (pushed F L p) \<and> 0 < M p
                                  \<and> M p = towards_value H L p (cell M1 p) (B - 1))))"
    by (intro exI[of _ B]) simp
qed

lemma tow_value_assign:
  assumes v: "tow_value F L H S M1 M lp"
    and q: "tow_queue F L H S M1 M (c0 # cur) nxt lp"
    and u: "\<not> 0 < M c0" and m1: "M c0 = cell M1 c0" and lp: "1 \<le> lp"
  shows "tow_value F L H S M1 (M(c0 := towards_value H L c0 (M c0) lp)) lp"
  unfolding tow_value_def
proof (intro allI impI)
  let ?v = "towards_value H L c0 (M c0) lp"
  let ?M = "M(c0 := ?v)"
  fix c assume pos: "0 < ?M c"
  have keep: "?M p = M p" if "0 < M p" for p using that u by auto
  show "\<exists>B. 1 \<le> B \<and> B \<le> lp \<and> ?M c = towards_value H L c (cell M1 c) B
             \<and> ((B = 1 \<and> c \<in> S)
                 \<or> (2 \<le> B \<and> (\<exists>p. c \<in> set (pushed F L p) \<and> 0 < ?M p
                                  \<and> ?M p = towards_value H L p (cell M1 p) (B - 1))))"
  proof (cases "c = c0")
    case True
    from q have "(lp = 1 \<and> c0 \<in> S)
          \<or> (2 \<le> lp \<and> (\<exists>p. c0 \<in> set (pushed F L p) \<and> 0 < M p
                            \<and> M p = towards_value H L p (cell M1 p) (lp - 1)))"
      unfolding tow_queue_def by simp
    then have "(lp = 1 \<and> c0 \<in> S)
          \<or> (2 \<le> lp \<and> (\<exists>p. c0 \<in> set (pushed F L p) \<and> 0 < ?M p
                            \<and> ?M p = towards_value H L p (cell M1 p) (lp - 1)))"
      using keep by metis
    then show ?thesis using True lp m1 by (intro exI[of _ lp]) simp
  next
    case False
    with pos have "0 < M c" by simp
    with v obtain B where B: "1 \<le> B" "B \<le> lp" "M c = towards_value H L c (cell M1 c) B"
      "(B = 1 \<and> c \<in> S) \<or> (2 \<le> B \<and> (\<exists>p. c \<in> set (pushed F L p) \<and> 0 < M p
                                  \<and> M p = towards_value H L p (cell M1 p) (B - 1)))"
      unfolding tow_value_def by blast
    from B(4) have "(B = 1 \<and> c \<in> S) \<or> (2 \<le> B \<and> (\<exists>p. c \<in> set (pushed F L p) \<and> 0 < ?M p
                                  \<and> ?M p = towards_value H L p (cell M1 p) (B - 1)))"
      using keep by metis
    then show ?thesis using B(1,2,3) False by (intro exI[of _ B]) simp
  qed
qed

subsection \<open>The cells of the queue\<close>

lemma tow_queue_marker:
  assumes "tow_queue F L H S M1 M [] nxt lp" "1 \<le> lp"
  shows "tow_queue F L H S M1 M nxt [] (lp + 1)"
  using assms unfolding tow_queue_def by auto

lemma tow_queue_skip:
  assumes "tow_queue F L H S M1 M (c0 # cur) nxt lp"
  shows "tow_queue F L H S M1 M cur nxt lp"
  using assms unfolding tow_queue_def by simp

lemma tow_queue_assign:
  assumes q: "tow_queue F L H S M1 M (c0 # cur) nxt lp"
    and u: "\<not> 0 < M c0" and m1: "M c0 = cell M1 c0"
    and v: "0 < towards_value H L c0 (M c0) lp"
  shows "tow_queue F L H S M1 (M(c0 := towards_value H L c0 (M c0) lp)) cur
           (nxt @ pushed F L c0) lp"
proof -
  let ?v = "towards_value H L c0 (M c0) lp"
  let ?M = "M(c0 := ?v)"
  have keep: "?M p = M p" if "0 < M p" for p using that u by auto
  have 1: "(lp = 1 \<and> c \<in> S)
          \<or> (2 \<le> lp \<and> (\<exists>p. c \<in> set (pushed F L p) \<and> 0 < ?M p
                            \<and> ?M p = towards_value H L p (cell M1 p) (lp - 1)))"
    if "c \<in> set cur" for c
  proof -
    from q that have "(lp = 1 \<and> c \<in> S)
          \<or> (2 \<le> lp \<and> (\<exists>p. c \<in> set (pushed F L p) \<and> 0 < M p
                            \<and> M p = towards_value H L p (cell M1 p) (lp - 1)))"
      unfolding tow_queue_def by simp
    then show ?thesis using keep by metis
  qed
  have 2: "\<exists>p. c \<in> set (pushed F L p) \<and> 0 < ?M p \<and> ?M p = towards_value H L p (cell M1 p) lp"
    if "c \<in> set (nxt @ pushed F L c0)" for c
  proof (cases "c \<in> set nxt")
    case True
    with q have "\<exists>p. c \<in> set (pushed F L p) \<and> 0 < M p
                     \<and> M p = towards_value H L p (cell M1 p) lp"
      unfolding tow_queue_def by simp
    then show ?thesis using keep by metis
  next
    case False
    with that have "c \<in> set (pushed F L c0)" by simp
    moreover have "0 < ?M c0" "?M c0 = towards_value H L c0 (cell M1 c0) lp" using v m1 by simp_all
    ultimately show ?thesis by blast
  qed
  show ?thesis unfolding tow_queue_def using 1 2 by blast
qed

subsection \<open>Every cell that can be reached is assigned or queued\<close>

lemma tow_reach_marker:
  assumes "tow_reach F L S M [] nxt"
  shows "tow_reach F L S M nxt []"
  using assms unfolding tow_reach_def by auto

lemma tow_reach_skip:
  assumes "tow_reach F L S M (c0 # cur) nxt" "0 < M c0"
  shows "tow_reach F L S M cur nxt"
  unfolding tow_reach_def
proof (intro conjI ballI allI impI)
  fix c assume "c \<in> S"
  with assms show "0 < M c \<or> c \<in> set cur" unfolding tow_reach_def by auto
next
  fix p n assume "0 < M p" "n \<in> set (pushed F L p)"
  with assms(1) have "0 < M n \<or> n \<in> set (c0 # cur) \<union> set nxt" unfolding tow_reach_def by blast
  with assms(2) show "0 < M n \<or> n \<in> set cur \<union> set nxt" by auto
qed

lemma tow_reach_assign:
  assumes r: "tow_reach F L S M (c0 # cur) nxt" and v: "0 < v"
  shows "tow_reach F L S (M(c0 := v)) cur (nxt @ pushed F L c0)"
  unfolding tow_reach_def
proof (intro conjI ballI allI impI)
  fix c assume "c \<in> S"
  with r have "0 < M c \<or> c \<in> set (c0 # cur)" unfolding tow_reach_def by blast
  then show "0 < (M(c0 := v)) c \<or> c \<in> set cur" using v by auto
next
  fix p n assume p: "0 < (M(c0 := v)) p" and n: "n \<in> set (pushed F L p)"
  show "0 < (M(c0 := v)) n \<or> n \<in> set cur \<union> set (nxt @ pushed F L c0)"
  proof (cases "p = c0")
    case True
    with n show ?thesis by simp
  next
    case False
    with p have "0 < M p" by simp
    with r n have "0 < M n \<or> n \<in> set (c0 # cur) \<union> set nxt" unfolding tow_reach_def by blast
    then show ?thesis using v by auto
  qed
qed

subsection \<open>Only labelled cells are assigned\<close>

lemma tow_labelled_marker:
  assumes "tow_labelled L M [] nxt"
  shows "tow_labelled L M nxt []"
  using assms unfolding tow_labelled_def by simp

lemma tow_labelled_skip:
  assumes "tow_labelled L M (c0 # cur) nxt"
  shows "tow_labelled L M cur nxt"
  using assms unfolding tow_labelled_def by simp

lemma tow_labelled_assign:
  assumes "tow_labelled L M (c0 # cur) nxt"
  shows "tow_labelled L (M(c0 := v)) cur (nxt @ pushed F L c0)"
proof -
  from assms have c0: "0 < cell L c0" unfolding tow_labelled_def by simp
  have "0 < cell L n" if "n \<in> set (pushed F L c0)" for n
    using that c0 by (auto simp: pushed_def)
  then show ?thesis using assms c0 unfolding tow_labelled_def by auto
qed

subsection \<open>The loop keeps the four parts\<close>

lemma towards_step2:
  assumes i1: "tow_inv1 L M1 H s" and z: "\<forall>c. cell M1 c \<le> 0"
    and i2: "tow_inv2 F L H S M1 s" and cont: "length (edges s) \<noteq> 1"
    and b: "towards_body F L s = Inr s'"
  shows "tow_inv2 F L H S M1 s'"
proof -
  note d = tow_inv1D[OF i1]
  let ?M = "cell (flat_mask s)"
  from i2 have tv: "tow_value F L H S M1 ?M (loops s)"
    and tq: "tow_queue F L H S M1 ?M (cur_part (edges s)) (nxt_part (edges s)) (loops s)"
    and tr: "tow_reach F L S ?M (cur_part (edges s)) (nxt_part (edges s))"
    and tl: "tow_labelled L ?M (cur_part (edges s)) (nxt_part (edges s))"
    unfolding tow_inv2_def by blast+
  from d(4) show ?thesis
  proof (cases rule: wf_queue_front)
    case marker
    let ?s' = "s\<lparr>edges := nxt_part (edges s) @ [iteration_marker], loops := loops s + 1\<rparr>"
    have s': "s' = ?s'" using towards_body_marker(1)[OF i1 cont marker(1), of F] b by simp
    have parts: "cur_part (edges ?s') = nxt_part (edges s)" "nxt_part (edges ?s') = []"
      using wf_queue_after_marker(2,3)[OF d(4) marker(1)] by simp_all
    show ?thesis
      unfolding s' tow_inv2_def parts
      using tow_value_mono[OF tv, of "loops s + 1"] tow_queue_marker[OF tq[unfolded marker(1)] d(5)]
        tow_reach_marker[OF tr[unfolded marker(1)]] tow_labelled_marker[OF tl[unfolded marker(1)]]
      by simp
  next
    case (front c rest)
    note tq' = tq[unfolded front(5,6)] and tr' = tr[unfolded front(5,6)]
      and tl' = tl[unfolded front(5,6)]
    show ?thesis
    proof (cases "0 < ?M c")
      case True
      have s': "s' = s\<lparr>edges := rest\<rparr>"
        using towards_body_skip(1)[OF i1 front(1,3) True, of F] b by simp
      show ?thesis
        unfolding s' tow_inv2_def
        using tv tow_queue_skip[OF tq'] tow_reach_skip[OF tr' True] tow_labelled_skip[OF tl']
        by simp
    next
      case False
      let ?v = "towards_value H L c (?M c) (loops s)"
      let ?s' = "\<lparr>edges = rest @ pushed F L c, loops = loops s,
                  flat_mask = (flat_mask s)\<lparr>cell := (cell (flat_mask s))(c := ?v)\<rparr>,
                  flat_height = flat_height s\<rparr>"
      have s': "s' = ?s'" using towards_body_assign(1)[OF i1 front(1,3) False, of F] b by simp
      have v: "0 < ?v" by (rule towards_body_assign(4)[OF i1 front(1,3) False])
      have m1: "?M c = cell M1 c" using d(8)[of c] False by auto
      have pg: "\<forall>x\<in>set (pushed F L c). in_grid L x" using pushed_in_grid by blast
      have parts: "cur_part (edges ?s') = cur_part rest"
        "nxt_part (edges ?s') = nxt_part rest @ pushed F L c"
        using wf_queue_push(2,3)[OF front(4) pg] by simp_all
      show ?thesis
        unfolding s' tow_inv2_def parts
        using tow_value_assign[OF tv tq' False m1 d(5)] tow_queue_assign[OF tq' False m1 v]
          tow_reach_assign[OF tr' v] tow_labelled_assign[OF tl']
        by simp
    qed
  qed
qed

lemma tow_inv2_initial:
  assumes z: "\<forall>c. cell M1 c \<le> 0" and g: "\<forall>c\<in>set edges0. in_grid L c"
    and l: "\<forall>c\<in>set edges0. 0 < cell L c"
  shows "tow_inv2 F L H (set edges0) M1
           \<lparr>edges = edges0 @ [iteration_marker], loops = 1, flat_mask = M1, flat_height = H\<rparr>"
proof -
  have parts: "cur_part (edges0 @ [iteration_marker]) = edges0"
    "nxt_part (edges0 @ [iteration_marker]) = []"
    using wf_queue_parts(2,3)[of edges0 "[]" L] g by simp_all
  have np: "\<not> 0 < cell M1 c" for c using z by (simp add: not_less)
  have "tow_value F L H (set edges0) M1 (cell M1) 1" unfolding tow_value_def using np by simp
  moreover have "tow_queue F L H (set edges0) M1 (cell M1) edges0 [] 1"
    unfolding tow_queue_def by simp
  moreover have "tow_reach F L (set edges0) (cell M1) edges0 []"
    unfolding tow_reach_def using np by simp
  moreover have "tow_labelled L (cell M1) edges0 []"
    unfolding tow_labelled_def using np l by simp
  ultimately show ?thesis unfolding tow_inv2_def by (simp add: parts)
qed

text \<open>\<^verbatim>\<open>BuildTowardsCombinedGradient\<close> returns, with both invariants and the queue reduced
  to the marker.\<close>

lemma BuildTowardsCombinedGradient_total:
  assumes dims: "viewWidth M0 = viewWidth L" "viewHeight M0 = viewHeight L"
    and seeds: "\<forall>c\<in>set edges0. in_grid L c" and rng: "labels_in_range L (length H)"
    and z: "\<forall>c. cell (negate_mask M0) c \<le> 0"
    and pre: "\<forall>c. cell (negate_mask M0) c < 0
                \<longrightarrow> 0 \<le> H ! nat (cell L c) + cell (negate_mask M0) c"
    and l: "\<forall>c\<in>set edges0. 0 < cell L c"
  shows "\<exists>t. BuildTowardsCombinedGradient F M0 edges0 H L = Some (Inr t)
            \<and> tow_inv1 L (negate_mask M0) H t
            \<and> tow_inv2 F L H (set edges0) (negate_mask M0) t
            \<and> cur_part (edges t) = [] \<and> nxt_part (edges t) = []"
proof -
  let ?M1 = "negate_mask M0"
  have d1: "viewWidth ?M1 = viewWidth L" "viewHeight ?M1 = viewHeight L"
    using dims by (simp_all add: negate_mask_def)
  have "\<exists>t. while_loop bfs_cont (towards_body F L) (towards_start edges0 M0 H) = Some (Inr t)
           \<and> tow_inv1 L ?M1 H t \<and> tow_inv2 F L H (set edges0) ?M1 t \<and> \<not> bfs_cont t"
  proof (rule while_loop_total2[where m = bfs_measure])
    show "tow_inv1 L ?M1 H (towards_start edges0 M0 H)"
      by (rule tow_inv1_initial[OF d1 seeds rng pre])
    show "tow_inv2 F L H (set edges0) ?M1 (towards_start edges0 M0 H)"
      by (rule tow_inv2_initial[OF z seeds l])
    show "\<exists>s'. towards_body F L s = Inr s' \<and> tow_inv1 L ?M1 H s'
                \<and> bfs_measure s' < bfs_measure s"
      if "tow_inv1 L ?M1 H s" "bfs_cont s" for s
      using that by (rule towards_step1)
    show "tow_inv2 F L H (set edges0) ?M1 s'"
      if "tow_inv1 L ?M1 H s" "tow_inv2 F L H (set edges0) ?M1 s" "bfs_cont s"
        "towards_body F L s = Inr s'" for s s'
      using that(1) z that(2,3,4) by (rule towards_step2)
  qed
  then obtain t where t: "BuildTowardsCombinedGradient F M0 edges0 H L = Some (Inr t)"
    "tow_inv1 L ?M1 H t" "tow_inv2 F L H (set edges0) ?M1 t" "\<not> length (edges t) \<noteq> 1"
    by (auto simp: BuildTowardsCombinedGradient_def)
  from final_queue(2,3)[OF tow_inv1D(4)[OF t(2)] t(4)] t(1,2,3) show ?thesis by blast
qed

text \<open>What the invariants say when the loop has ended.\<close>

lemma tow_final:
  assumes i2: "tow_inv2 F L H S M1 t"
    and e: "cur_part (edges t) = []" "nxt_part (edges t) = []"
  shows "\<And>c. 0 < cell (flat_mask t) c \<Longrightarrow>
           \<exists>B. 1 \<le> B \<and> cell (flat_mask t) c = towards_value H L c (cell M1 c) B
             \<and> ((B = 1 \<and> c \<in> S)
                 \<or> (2 \<le> B \<and> (\<exists>p. c \<in> set (pushed F L p) \<and> 0 < cell (flat_mask t) p
                        \<and> cell (flat_mask t) p = towards_value H L p (cell M1 p) (B - 1))))"
    and "\<And>c. treach F L S c \<Longrightarrow> 0 < cell (flat_mask t) c"
    and "\<And>c. 0 < cell (flat_mask t) c \<Longrightarrow> 0 < cell L c"
proof -
  let ?T = "cell (flat_mask t)"
  from i2 have tv: "tow_value F L H S M1 ?T (loops t)"
    and tr: "tow_reach F L S ?T [] []"
    and tl: "tow_labelled L ?T [] []"
    unfolding tow_inv2_def e by blast+
  show "\<exists>B. 1 \<le> B \<and> ?T c = towards_value H L c (cell M1 c) B
             \<and> ((B = 1 \<and> c \<in> S)
                 \<or> (2 \<le> B \<and> (\<exists>p. c \<in> set (pushed F L p) \<and> 0 < ?T p
                        \<and> ?T p = towards_value H L p (cell M1 p) (B - 1))))"
    if "0 < ?T c" for c
    using tv that unfolding tow_value_def by blast
  show "0 < ?T c" if "treach F L S c" for c
    using that
  proof (induction rule: treach.induct)
    case (treach_seed c)
    with tr show ?case unfolding tow_reach_def by auto
  next
    case (treach_step p n)
    with tr show ?case unfolding tow_reach_def by auto
  qed
  show "0 < cell L c" if "0 < ?T c" for c
    using tl that unfolding tow_labelled_def by blast
qed


section \<open>Every labelled flat cell is reached from a low-edge seed\<close>

lemma treach_pos: "treach F L S c \<Longrightarrow> 0 < cell L c"
  by (induction rule: treach.induct) (auto simp: pushed_def)

lemma treach_upd:
  assumes "treach F L S c" "\<not> 0 < cell L c0"
  shows "treach F (L\<lparr>cell := (cell L)(c0 := v)\<rparr>) S c"
  using assms(1)
proof (induction rule: treach.induct)
  case (treach_seed c)
  then have "c \<noteq> c0" using assms(2) by auto
  with treach_seed show ?case by (intro treach.treach_seed) simp_all
next
  case (treach_step p n)
  have "0 < cell L p" by (rule treach_pos[OF treach_step.hyps(1)])
  moreover from treach_step.hyps(2) have "cell L n = cell L p" by (simp add: pushed_def)
  ultimately have "p \<noteq> c0" "n \<noteq> c0" using assms(2) by auto
  with treach_step.hyps(2) have "n \<in> set (pushed F (L\<lparr>cell := (cell L)(c0 := v)\<rparr>) p)"
    by (auto simp: pushed_def)
  with treach_step.IH show ?case by (rule treach.treach_step)
qed

lemma is_low_edgeI:
  assumes "nodata_consistent E F" "in_grid F p" "in_grid F (nbr p k)" "k \<in> set dirs"
    and "cell F p \<noteq> NO_FLOW" "cell F (nbr p k) = NO_FLOW" "cell E (nbr p k) = cell E p"
  shows "is_low_edge E F p"
proof -
  from assms(1) have nf: "noData F \<noteq> NO_FLOW"
    and con: "\<And>c. in_grid F c \<Longrightarrow> (cell F c = noData F) = (cell E c = noData E)"
    unfolding nodata_consistent_def by (auto simp: set_all_cells)
  have n: "cell F (nbr p k) \<noteq> noData F" using nf assms(6) by simp
  then have "cell E (nbr p k) \<noteq> noData E" using con[OF assms(3)] by simp
  then have "cell F p \<noteq> noData F" using con[OF assms(2)] assms(7) by simp
  with n assms show ?thesis unfolding is_low_edge_def by blast
qed

lemma label_inv2_assign:
  fixes E :: "'e::linorder Array2D"
  assumes i1: "label_inv1 E target label L0 seed s" and i2: "label_inv2 F S (lab s)"
    and q: "to_fill s = c0 # rest" and go: "cell E c0 = target" "\<not> 0 < cell (lab s) c0"
    and pos: "0 < label"
    and S: "S = set (low_edges_of E F)" and seed: "seed \<in> S"
    and nd: "nodata_consistent E F"
    and dims: "viewWidth L0 = viewWidth F" "viewHeight L0 = viewHeight F"
  shows "label_inv2 F S ((lab s)\<lparr>cell := (cell (lab s))(c0 := label)\<rparr>)"
  unfolding label_inv2_def
proof (intro allI impI)
  let ?L = "lab s" and ?L' = "(lab s)\<lparr>cell := (cell (lab s))(c0 := label)\<rparr>"
  note d = label_inv1D[OF i1]
  have ig: "in_grid ?L = in_grid L0" by (rule label_inv1_in_grid[OF i1])
  have igF: "in_grid L0 = in_grid F" by (rule in_grid_cong[OF dims])
  have g0: "in_grid L0 c0" using d(4)[of c0] q by simp
  fix c assume c: "in_grid ?L' c" "0 < cell ?L' c" "cell F c = NO_FLOW"
  show "treach F ?L' S c"
  proof (cases "c = c0")
    case False
    with c have "treach F ?L S c" using i2 unfolding label_inv2_def by simp
    then show ?thesis using go(2) by (rule treach_upd)
  next
    case True
    have nseed: "c0 \<noteq> seed"
      using seed c(3) True unfolding S low_edges_set by (auto simp: is_low_edge_def)
    with d(7)[of c0] q obtain p k where pk: "k \<in> set dirs" "c0 = nbr p k" "in_grid L0 p"
      "cell L0 p \<le> 0" "cell ?L p = label"
      by auto
    have pne: "p \<noteq> c0" using pk(5) go(2) pos by auto
    have Ep: "cell E p = target" using d(5)[of p] pk(4,5) pos by auto
    have lp: "cell ?L' p = label" "cell ?L' c0 = label" using pk(5) pne by simp_all
    have push: "c0 \<in> set (pushed F ?L' p)"
      using pk(1,2) g0 ig lp c(3) True by (auto simp: pushed_def)
    have "treach F ?L' S p"
    proof (cases "cell F p = NO_FLOW")
      case True
      have "treach F ?L S p" using i2 pk(3,5) pos ig True unfolding label_inv2_def by simp
      then show ?thesis using go(2) by (rule treach_upd)
    next
      case False
      have "is_low_edge E F p"
        by (rule is_low_edgeI[OF nd _ _ pk(1) False])
           (use pk(2,3) g0 igF c(3) True go(1) Ep in auto)
      then have "p \<in> S" using pk(3) igF unfolding S low_edges_set by simp
      then show ?thesis using lp(1) pos by (intro treach_seed) simp_all
    qed
    then show ?thesis using push True by (auto intro: treach_step)
  qed
qed

lemma label_step2:
  fixes E :: "'e::linorder Array2D"
  assumes i1: "label_inv1 E target label L0 seed s" and i2: "label_inv2 F S (lab s)"
    and cont: "length (to_fill s) > 0"
    and b: "label_body E target label s = Inr s'"
    and sd: "cell E seed = target" "cell L0 seed \<le> 0" and pos: "0 < label"
    and S: "S = set (low_edges_of E F)" and seed: "seed \<in> S"
    and nd: "nodata_consistent E F"
    and dims: "viewWidth L0 = viewWidth F" "viewHeight L0 = viewHeight F"
  shows "label_inv2 F S (lab s')"
proof -
  from cont obtain c rest where q: "to_fill s = c # rest" by (cases "to_fill s") auto
  show ?thesis
  proof (cases "cell E c \<noteq> target \<or> 0 < cell (lab s) c")
    case True
    from label_body_skip(1)[OF i1 q True sd] b have "s' = s\<lparr>to_fill := rest\<rparr>" by simp
    then show ?thesis using i2 by simp
  next
    case False
    then have go: "cell E c = target" "\<not> 0 < cell (lab s) c" by simp_all
    from label_body_assign(1)[OF i1 q go pos] b
    have "lab s' = (lab s)\<lparr>cell := (cell (lab s))(c := label)\<rparr>" by auto
    then show ?thesis
      using label_inv2_assign[OF i1 i2 q go pos S seed nd dims] by simp
  qed
qed

text \<open>A flood fill keeps \<open>flat_reached\<close>.\<close>

lemma filled_reached:
  fixes E :: "'e::linorder Array2D"
  assumes f: "filled E i g L L'" and gi: "in_grid L i" and z: "cell L i = 0" and pos: "0 < g"
    and seed: "i \<in> set (low_edges_of E F)" and nd: "nodata_consistent E F"
    and dims: "viewWidth L = viewWidth F" "viewHeight L = viewHeight F"
    and r: "flat_reached E F L"
  shows "flat_reached E F L'"
proof -
  let ?S = "set (low_edges_of E F)" and ?t = "cell E i"
  have ii: "Cell (cx i) (cy i) = i" by simp
  from r have r1: "label_inv2 F ?S L"
    and r2: "\<And>c. 0 < cell L c \<Longrightarrow> \<exists>j\<in>?S. cell L j = cell L c"
    unfolding flat_reached_def by blast+
  from f have lt: "label_this (cx i) (cy i) g L E = Some (Inr L')"
    unfolding filled_def by blast
  from f have frame: "\<And>c. cell L' c = cell L c \<or> (cell L c \<le> 0 \<and> cell L' c = g)"
    unfolding filled_def by blast
  from f have si: "cell L' i = g" unfolding filled_def by blast
  have "\<exists>s'. while_loop (\<lambda>s. length (to_fill s) > 0) (label_body E ?t g)
                \<lparr>to_fill = [i], lab = L\<rparr> = Some (Inr s')
            \<and> label_inv1 E ?t g L i s' \<and> label_inv2 F ?S (lab s')
            \<and> \<not> length (to_fill s') > 0"
  proof (rule while_loop_total2[where m = label_measure and J = "\<lambda>s. label_inv2 F ?S (lab s)"])
    show "label_inv1 E ?t g L i \<lparr>to_fill = [i], lab = L\<rparr>" by (rule label_inv1_initial[OF gi])
    show "label_inv2 F ?S (lab \<lparr>to_fill = [i], lab = L\<rparr>)" using r1 by simp
    show "\<exists>s'. label_body E ?t g s = Inr s' \<and> label_inv1 E ?t g L i s'
                \<and> label_measure s' < label_measure s"
      if "label_inv1 E ?t g L i s" "length (to_fill s) > 0" for s
      using that by (rule label_step1[OF _ _ refl _ pos]) (simp add: z)
    show "label_inv2 F ?S (lab s')"
      if "label_inv1 E ?t g L i s" "label_inv2 F ?S (lab s)" "length (to_fill s) > 0"
        "label_body E ?t g s = Inr s'" for s s'
      using that by (rule label_step2[OF _ _ _ _ refl _ pos refl seed nd dims]) (simp add: z)
  qed
  then obtain s' where s': "while_loop (\<lambda>s. length (to_fill s) > 0) (label_body E ?t g)
                \<lparr>to_fill = [i], lab = L\<rparr> = Some (Inr s')" "label_inv2 F ?S (lab s')"
    by blast
  have "label_this (cx i) (cy i) g L E = Some (Inr (lab s'))"
    unfolding label_this_def ii s'(1) by simp
  with lt have "L' = lab s'" by simp
  with s'(2) have 1: "label_inv2 F ?S L'" by simp
  have 2: "\<exists>j\<in>?S. cell L' j = cell L' c" if c: "0 < cell L' c" for c
  proof (cases "cell L' c = cell L c")
    case True
    with c r2[of c] obtain j where j: "j \<in> ?S" "cell L j = cell L c" by auto
    then have "cell L' j = cell L j" using frame[of j] c True by auto
    with j True show ?thesis by auto
  next
    case False
    then have "cell L' c = g" using frame[of c] by auto
    with si seed show ?thesis by auto
  qed
  show ?thesis unfolding flat_reached_def using 1 2 by blast
qed

lemma flat_reached_initial: "flat_reached E F (initial_labels L_in F)"
  unfolding flat_reached_def label_inv2_def by (simp add: resize_init_def)

section \<open>All stages of resolve_flats_barnes, with their invariants\<close>

lemma stage_labelling_reached:
  "\<exists>g L. label_flats E (low_edges_of E F) 1 (initial_labels L_in F) = Some (Inr (g, L))
         \<and> labelling_inv E g L \<and> viewWidth L = viewWidth F \<and> viewHeight L = viewHeight F
         \<and> (\<forall>i\<in>set (low_edges_of E F). 0 < cell L i)
         \<and> (nodata_consistent E F \<longrightarrow> flat_reached E F L)"
proof -
  let ?P = "\<lambda>(g::int) L. viewWidth L = viewWidth F \<and> viewHeight L = viewHeight F
               \<and> (nodata_consistent E F \<longrightarrow> flat_reached E F L)"
  let ?L0 = "initial_labels L_in F"
  have g: "\<forall>i\<in>set (low_edges_of E F). in_grid ?L0 i"
    by (simp add: low_edges_set in_grid_def resize_init_def)
  have "\<exists>g' L'. label_flats E (low_edges_of E F) 1 ?L0 = Some (Inr (g', L'))
           \<and> labelling_inv E g' L' \<and> ?P g' L' \<and> 1 \<le> g'
           \<and> viewWidth L' = viewWidth ?L0 \<and> viewHeight L' = viewHeight ?L0
           \<and> noData L' = noData ?L0
           \<and> (\<forall>c. 0 < cell ?L0 c \<longrightarrow> cell L' c = cell ?L0 c)
           \<and> (\<forall>i\<in>set (low_edges_of E F). 0 < cell L' i)"
  proof (rule label_flats_total[where P = ?P, OF g labelling_inv_initial])
    show "?P 1 ?L0" using flat_reached_initial[of E F L_in] by (simp add: resize_init_def)
    fix i g L L'
    assume a: "i \<in> set (low_edges_of E F)" "in_grid L i" "cell L i = 0" "labelling_inv E g L"
      "?P g L" "filled E i g L L'"
    from a(4) have pos: "0 < g" unfolding labelling_inv_def by linarith
    from a(6) have d: "viewWidth L' = viewWidth L" "viewHeight L' = viewHeight L"
      unfolding filled_def by blast+
    have "flat_reached E F L'" if "nodata_consistent E F"
      using filled_reached[OF a(6,2,3) pos a(1) that] a(5) that by blast
    with d a(5) show "?P (g + 1) L'" by simp
  qed
  then show ?thesis by blast
qed

lemma stages_exist:
  assumes dims: "viewWidth E = viewWidth F" "viewHeight E = viewHeight F"
  shows "\<exists>g L a t. stages E F M_in L_in g L a t \<and> stage_facts E F (initial_mask M_in E) g L a t"
proof -
  let ?M0 = "initial_mask M_in E" and ?low = "low_edges_of E F"
  from stage_labelling_reached[where E = E and F = F and L_in = L_in] obtain g L where
    lab: "label_flats E ?low 1 (initial_labels L_in F) = Some (Inr (g, L))"
    and inv: "labelling_inv E g L" and Ld: "viewWidth L = viewWidth F" "viewHeight L = viewHeight F"
    and sl: "\<forall>i\<in>set ?low. 0 < cell L i"
    and fr: "nodata_consistent E F \<longrightarrow> flat_reached E F L"
    by blast
  let ?H0 = "replicate (nat g) (0::int)" and ?high = "pruned_high_edges E F L"
  have ig: "in_grid L = in_grid F" by (rule in_grid_cong[OF Ld])
  have z: "\<forall>c. cell ?M0 c \<le> 0" by (simp add: resize_init_def)
  have z0: "\<forall>c. cell ?M0 c = 0" by (simp add: resize_init_def)
  have hs: "\<forall>c\<in>set ?high. in_grid L c" using high_edges_set[where E = E and F = F] ig by auto
  have ls: "\<forall>c\<in>set ?low. in_grid L c" using low_edges_set[where E = E and F = F] ig by auto
  have rng: "labels_in_range L (length ?H0)" using labelling_inv_range[OF inv] by simp
  have "\<exists>a. BuildAwayGradient F ?M0 ?high ?H0 L = Some (Inr a)
            \<and> away_inv1 L ?M0 (length ?H0) a \<and> away_inv2 F L (set ?high) ?H0 a
            \<and> cur_part (edges a) = [] \<and> nxt_part (edges a) = []"
    by (rule BuildAwayGradient_total[OF _ _ hs rng z])
       (use dims Ld in \<open>simp_all add: resize_init_def\<close>)
  then obtain a where a: "BuildAwayGradient F ?M0 ?high ?H0 L = Some (Inr a)"
    and a1: "away_inv1 L ?M0 (nat g) a" and a2: "away_inv2 F L (set ?high) ?H0 a"
    and ae: "cur_part (edges a) = []" "nxt_part (edges a) = []"
    by auto
  note ad = away_inv1D[OF a1]
  have rng': "labels_in_range L (length (flat_height a))" using ad(6,7) by simp
  have "\<exists>t. BuildTowardsCombinedGradient F (flat_mask a) ?low (flat_height a) L = Some (Inr t)
            \<and> tow_inv1 L (negate_mask (flat_mask a)) (flat_height a) t
            \<and> tow_inv2 F L (flat_height a) (set ?low) (negate_mask (flat_mask a)) t
            \<and> cur_part (edges t) = [] \<and> nxt_part (edges t) = []"
    by (rule BuildTowardsCombinedGradient_total[OF ad(1,2) ls rng'
          negated_away_mask(1)[OF a1 z0] negated_away_mask(2)[OF a1 z0] sl])
  then obtain t where t: "BuildTowardsCombinedGradient F (flat_mask a) ?low (flat_height a) L
       = Some (Inr t)"
    and t1: "tow_inv1 L (negate_mask (flat_mask a)) (flat_height a) t"
    and t2: "tow_inv2 F L (flat_height a) (set ?low) (negate_mask (flat_mask a)) t"
    and te: "cur_part (edges t) = []" "nxt_part (edges t) = []"
    by blast
  have "stages E F M_in L_in g L a t" unfolding stages_def using lab a t by simp
  moreover have "stage_facts E F ?M0 g L a t"
    unfolding stage_facts_def using inv Ld sl fr a1 a2 ae t1 t2 te by simp
  ultimately show ?thesis by blast
qed

lemma stages_resolve:
  assumes "stages E F M_in L_in g L a t" "low_edges_of E F \<noteq> []"
  shows "resolve_flats_barnes E F M_in L_in =
           Some (Inr \<lparr>res_flat_mask = flat_mask t, res_labels = L,
                      res_diag = (if length (pruned_high_edges E F L) < length (high_edges_of E F)
                                  then [NotAllFlatsHaveOutlets] else [])\<rparr>)"
  using assms resolve_flats_barnes_stages[where E = E and F = F and L_in = L_in and g = g
      and L = L and M_in = M_in and a = a and t = t]
  unfolding stages_def by simp

subsection \<open>The masks after the two gradient procedures\<close>

lemma away_mask_facts:
  assumes f: "stage_facts E F M0 g L a t" and z: "\<forall>c. cell M0 c = 0"
  shows "\<And>c. 0 \<le> cell (flat_mask a) c"
    and "\<And>c. 0 < cell (flat_mask a) c \<Longrightarrow> in_grid L c"
    and "\<And>c. 0 < cell (flat_mask a) c \<Longrightarrow> cell (flat_mask a) c \<le> flat_height a ! nat (cell L c)"
    and "\<And>c. in_grid L c \<Longrightarrow> cell (negate_mask (flat_mask a)) c = - cell (flat_mask a) c"
    and "\<And>c. \<not> in_grid L c \<Longrightarrow> cell (negate_mask (flat_mask a)) c = 0"
proof -
  from f have a1: "away_inv1 L M0 (nat g) a" unfolding stage_facts_def by blast
  note d = away_inv1D[OF a1]
  have ig: "in_grid (flat_mask a) = in_grid L" by (rule away_inv1_in_grid[OF a1])
  show nn: "0 \<le> cell (flat_mask a) c" for c using d(8)[of c] z by auto
  show g: "in_grid L c" if "0 < cell (flat_mask a) c" for c using d(8)[of c] z that by auto
  show "cell (flat_mask a) c \<le> flat_height a ! nat (cell L c)" if "0 < cell (flat_mask a) c" for c
    using d(9)[of c] z that by simp
  show "cell (negate_mask (flat_mask a)) c = - cell (flat_mask a) c" if "in_grid L c" for c
    using that ig by (simp add: negate_mask_def)
  show "cell (negate_mask (flat_mask a)) c = 0" if "\<not> in_grid L c" for c
  proof -
    have "cell (flat_mask a) c = 0" using that g[of c] nn[of c] by (cases "0 < cell (flat_mask a) c") auto
    then show ?thesis using that ig by (simp add: negate_mask_def)
  qed
qed

text \<open>Every assigned cell that is not a seed was pushed by an assigned neighbour of its
  flat whose final mask is strictly lower.\<close>

lemma towards_predecessor_lower:
  assumes f: "stage_facts E F M0 g L a t" and z: "\<forall>c. cell M0 c = 0"
    and c: "0 < cell (flat_mask t) c" "c \<notin> set (low_edges_of E F)"
  shows "\<exists>p. c \<in> set (pushed F L p) \<and> in_grid L p \<and> cell (flat_mask t) p < cell (flat_mask t) c"
proof -
  let ?A = "cell (flat_mask a)" and ?T = "cell (flat_mask t)" and ?H = "flat_height a"
  let ?M1 = "negate_mask (flat_mask a)"
  from f have a1: "away_inv1 L M0 (nat g) a"
    and a2: "away_inv2 F L (set (pruned_high_edges E F L)) (replicate (nat g) 0) a"
    and ae: "cur_part (edges a) = []" "nxt_part (edges a) = []"
    and t1: "tow_inv1 L ?M1 ?H t"
    and t2: "tow_inv2 F L ?H (set (low_edges_of E F)) ?M1 t"
    and te: "cur_part (edges t) = []" "nxt_part (edges t) = []"
    unfolding stage_facts_def by blast+
  have z': "\<forall>c. cell M0 c \<le> 0" using z by simp
  note am = away_mask_facts[OF f z]
  note af = away_final[OF a1 a2 ae z']
  from tow_final(1)[OF t2 te c(1)] c(2) obtain B p where B: "2 \<le> B"
    and Tc: "?T c = towards_value ?H L c (cell ?M1 c) B"
    and p: "c \<in> set (pushed F L p)" "0 < ?T p"
    and Tp: "?T p = towards_value ?H L p (cell ?M1 p) (B - 1)"
    by auto
  have m1: "cell ?M1 x \<le> 0" for x using am(1)[of x] am(4,5)[of x] by (cases "in_grid L x") auto
  have gp: "in_grid L p" using tow_inv1D(8)[OF t1, of p] p(2) m1[of p] by auto
  have gc: "in_grid L c" using p(1) by (rule pushed_in_grid)
  have lab: "cell L c = cell L p" using p(1) by (simp add: pushed_def)
  have "?T p < ?T c"
  proof (cases "0 < ?A p")
    case True
    from af(1)[OF True p(1)] have Ac: "0 < ?A c" "?A c \<le> ?A p + 1" by simp_all
    show ?thesis
      unfolding Tc Tp towards_value_def using True Ac am(4)[OF gp] am(4)[OF gc] lab by simp
  next
    case False
    then have Ap: "?A p = 0" using am(1)[of p] by simp
    show ?thesis
    proof (cases "0 < ?A c")
      case True
      from am(3)[OF True] show ?thesis
        unfolding Tc Tp towards_value_def using True Ap am(4)[OF gp] am(4)[OF gc] by simp
    next
      case False
      then have "?A c = 0" using am(1)[of c] by simp
      then show ?thesis
        unfolding Tc Tp towards_value_def using Ap am(4)[OF gp] am(4)[OF gc] by simp
    qed
  qed
  with p(1) gp show ?thesis by blast
qed

text \<open>The cells that \<^verbatim>\<open>BuildAwayGradient\<close> reaches are labelled cells of the grid
  without a flow direction.\<close>

lemma hops_high_edges:
  assumes "hops F L (set (pruned_high_edges E F L)) k c" "\<forall>c. 0 \<le> cell L c"
    "in_grid L = in_grid F"
  shows "in_grid L c \<and> 0 < cell L c \<and> cell F c = NO_FLOW"
  using assms(1)
proof (induction rule: hops.induct)
  case (hops_seed c)
  then have "in_grid F c" "is_high_edge E F c" "cell L c \<noteq> 0"
    using high_edges_set[where E = E and F = F] by auto
  then show ?case using assms(2,3) by (auto simp: is_high_edge_def le_less)
next
  case (hops_step k p n)
  then show ?case by (auto simp: pushed_def)
qed

text \<open>With consistent NoData, no cell keeps a negative mask.\<close>

lemma final_mask_cases:
  assumes f: "stage_facts E F M0 g L a t" and z: "\<forall>c. cell M0 c = 0"
    and nd: "nodata_consistent E F"
  shows "0 < cell (flat_mask t) c \<or> (cell (flat_mask t) c = 0 \<and> cell (flat_mask a) c = 0)"
proof -
  let ?A = "cell (flat_mask a)" and ?T = "cell (flat_mask t)"
  let ?M1 = "negate_mask (flat_mask a)"
  from f have inv: "labelling_inv E g L" and Ld: "viewWidth L = viewWidth F" "viewHeight L = viewHeight F"
    and fr: "flat_reached E F L"
    and a1: "away_inv1 L M0 (nat g) a"
    and a2: "away_inv2 F L (set (pruned_high_edges E F L)) (replicate (nat g) 0) a"
    and ae: "cur_part (edges a) = []" "nxt_part (edges a) = []"
    and t1: "tow_inv1 L ?M1 (flat_height a) t"
    and t2: "tow_inv2 F L (flat_height a) (set (low_edges_of E F)) ?M1 t"
    and te: "cur_part (edges t) = []" "nxt_part (edges t) = []"
    unfolding stage_facts_def using nd by blast+
  have z': "\<forall>c. cell M0 c \<le> 0" using z by simp
  note am = away_mask_facts[OF f z]
  note af = away_final[OF a1 a2 ae z']
  have nn: "\<forall>c. 0 \<le> cell L c" using inv unfolding labelling_inv_def by blast
  have ig: "in_grid L = in_grid F" by (rule in_grid_cong[OF Ld])
  show ?thesis
  proof (cases "0 < ?T c")
    case True
    then show ?thesis by simp
  next
    case False
    then have Tc: "?T c = cell ?M1 c" using tow_inv1D(8)[OF t1, of c] by auto
    have "\<not> 0 < ?A c"
    proof
      assume pos: "0 < ?A c"
      from hops_high_edges[OF af(2)[OF pos] nn ig]
      have "in_grid L c" "0 < cell L c" "cell F c = NO_FLOW" by simp_all
      then have "treach F L (set (low_edges_of E F)) c"
        using fr unfolding flat_reached_def label_inv2_def by blast
      from tow_final(2)[OF t2 te this] False show False by simp
    qed
    then have "?A c = 0" using am(1)[of c] by simp
    then show ?thesis using Tc am(4,5)[of c] by (cases "in_grid L c") auto
  qed
qed

lemma dims_s2: "viewWidth E_s2 = viewWidth F_s2" "viewHeight E_s2 = viewHeight F_s2"
  by (simp_all add: E_s2_def F_s2_def raster_def)

lemma nodata_consistent_s2: "nodata_consistent E_s2 F_s2"
  by (simp add: nodata_consistent_def E_s2_def F_s2_def eval_defs)


lemma high_edges_s2:
  "high_edges_of E_s2 F_s2 = [Cell 1 1, Cell 1 2, Cell 1 3, Cell 2 1, Cell 2 3, Cell 4 2]"
  by (simp add: find_flat_edges_def edge_body_def F_s2_def E_s2_def eval_defs)

lemma label_s2_corner:
  "map_option (map_sum id (\<lambda>r. cell (snd r) (Cell 1 1)))
     (label_flats E_s2 (low_edges_of E_s2 F_s2) 1 (initial_labels empty_raster F_s2))
   = Some (Inr 1)"
  by (simp add: find_flat_edges_def edge_body_def label_this_def label_body_def
      while_loop.simps F_s2_def E_s2_def resize_init_def empty_raster_def eval_defs)

text \<open>The mask of a reached cell after \<^verbatim>\<open>BuildAwayGradient\<close>, and the heights.\<close>

lemma away_min_hops:
  assumes f: "stage_facts E F M0 g L a t" and z: "\<forall>c. cell M0 c = 0"
  defines "S \<equiv> set (pruned_high_edges E F L)"
  shows "\<And>c. (\<exists>k. hops F L S k c) = (0 < cell (flat_mask a) c)"
    and "\<And>c. 0 < cell (flat_mask a) c \<Longrightarrow> min_hops F L S c (nat (cell (flat_mask a) c - 1))"
    and "\<And>c k. min_hops F L S c k \<Longrightarrow> cell (flat_mask a) c = int k + 1"
    and "\<And>c. 0 < cell (flat_mask a) c \<Longrightarrow> cell (flat_mask a) c \<le> flat_height a ! nat (cell L c)"
    and "\<And>c. 0 < cell (flat_mask a) c
           \<Longrightarrow> \<exists>d. cell L d = cell L c \<and> 0 < cell (flat_mask a) d
                   \<and> flat_height a ! nat (cell L c) = cell (flat_mask a) d"
proof -
  let ?A = "cell (flat_mask a)"
  from f have a1: "away_inv1 L M0 (nat g) a"
    and a2: "away_inv2 F L S (replicate (nat g) 0) a"
    and ae: "cur_part (edges a) = []" "nxt_part (edges a) = []"
    unfolding stage_facts_def S_def by blast+
  have z': "\<forall>c. cell M0 c \<le> 0" using z by simp
  note af = away_final[OF a1 a2 ae z']
  note d = away_inv1D[OF a1]
  show r: "(\<exists>k. hops F L S k c) = (0 < ?A c)" for c
    using af(2)[of c] af(3)[of _ c] by blast
  show m: "min_hops F L S c (nat (?A c - 1))" if "0 < ?A c" for c
    unfolding min_hops_def
  proof (intro conjI allI impI)
    show "hops F L S (nat (?A c - 1)) c" by (rule af(2)[OF that])
    fix j assume "hops F L S j c"
    from af(3)[OF this] show "nat (?A c - 1) \<le> j" by linarith
  qed
  show "?A c = int k + 1" if "min_hops F L S c k" for c k
  proof -
    from that have h: "hops F L S k c" and le: "\<And>j. hops F L S j c \<Longrightarrow> k \<le> j"
      unfolding min_hops_def by blast+
    from af(3)[OF h] have p: "0 < ?A c" "?A c \<le> int k + 1" by simp_all
    from le[OF af(2)[OF p(1)]] p show ?thesis by linarith
  qed
  show "?A c \<le> flat_height a ! nat (cell L c)" if "0 < ?A c" for c
    using d(9)[of c] z that by simp
  show "\<exists>d. cell L d = cell L c \<and> 0 < ?A d \<and> flat_height a ! nat (cell L c) = ?A d"
    if "0 < ?A c" for c
  proof -
    from d(7) have "0 \<le> cell L c" "cell L c < int (nat g)" unfolding labels_in_range_def by blast+
    then have "0 \<le> cell L c" "cell L c < int (length (flat_height a))" using d(6) by simp_all
    with af(4) have "(\<forall>c'. cell L c' = cell L c \<longrightarrow> ?A c' \<le> 0)
        \<or> (\<exists>d. cell L d = cell L c \<and> 0 < ?A d \<and> ?A d = flat_height a ! nat (cell L c))"
      unfolding away_height_def by blast
    with that show ?thesis by force
  qed
qed

subsection \<open>Assigned cells keep their value\<close>

lemma towards_body_keeps:
  assumes "towards_body F L s = Inr s'" "0 < cell (flat_mask s) d"
  shows "cell (flat_mask s') d = cell (flat_mask s) d"
  using assms by (auto simp: towards_body_def split: list.splits if_splits)

lemma towards_steps_keep:
  assumes "steps bfs_cont (towards_body F L) s t" "0 < cell (flat_mask s) d"
  shows "cell (flat_mask t) d = cell (flat_mask s) d"
  using assms
proof (induction rule: steps.induct)
  case (steps_refl s)
  show ?case ..
next
  case (steps_step s s1 s2)
  then have "cell (flat_mask s1) d = cell (flat_mask s) d" by simp
  with towards_body_keeps[OF steps_step.hyps(3), of d] steps_step.prems show ?case by simp
qed

text \<open>From a state that satisfies the invariant, the loop runs to its end.\<close>

lemma towards_run:
  assumes "tow_inv1 L Ms H s"
  shows "\<exists>t. while_loop bfs_cont (towards_body F L) s = Some (Inr t)
           \<and> steps bfs_cont (towards_body F L) s t"
proof -
  let ?I = "\<lambda>s1. tow_inv1 L Ms H s1 \<and> steps bfs_cont (towards_body F L) s s1"
  have "\<exists>t. while_loop bfs_cont (towards_body F L) s = Some (Inr t) \<and> ?I t \<and> \<not> bfs_cont t"
  proof (rule while_loop_total[where I = ?I and m = bfs_measure])
    show "?I s" using assms by (simp add: steps_refl)
    show "\<exists>s'. towards_body F L s1 = Inr s' \<and> ?I s' \<and> bfs_measure s' < bfs_measure s1"
      if "?I s1" "bfs_cont s1" for s1
    proof -
      from towards_step1[of L Ms H s1 F] that obtain s2 where
        s2: "towards_body F L s1 = Inr s2" "tow_inv1 L Ms H s2" "bfs_measure s2 < bfs_measure s1"
        by blast
      from that s2(1) have "steps bfs_cont (towards_body F L) s s2"
        by (blast intro: steps_step)
      with s2 show ?thesis by blast
    qed
  qed
  then show ?thesis by blast
qed

text \<open>The value written when a cell is taken from the queue is its final value.\<close>

lemma towards_assigned_final:
  fixes F :: "int Array2D"
  assumes i0: "tow_inv1 L Ms H s0"
    and run: "while_loop bfs_cont (towards_body F L) s0 = Some (Inr t)"
    and st: "steps bfs_cont (towards_body F L) s0 s"
    and q: "edges s = c # rest" and c: "cx c \<noteq> -1" and np: "\<not> 0 < cell (flat_mask s) c"
  shows "cell (flat_mask s) c = cell Ms c" and "in_grid L c" and "1 \<le> loops s"
    and "flat_height s = H"
    and "\<exists>s'. towards_body F L s = Inr s'
           \<and> cell (flat_mask s') c = towards_value H L c (cell (flat_mask s) c) (loops s)"
    and "cell (flat_mask t) c = towards_value H L c (cell (flat_mask s) c) (loops s)"
proof -
  have i: "tow_inv1 L Ms H s" by (rule tow_inv1_steps[OF st i0])
  note d = tow_inv1D[OF i]
  show "cell (flat_mask s) c = cell Ms c" using d(8)[of c] np by auto
  show g: "in_grid L c" using wf_queue_Cons(1)[of L c rest] d(4) q c by simp
  show "1 \<le> loops s" by (rule d(5))
  show "flat_height s = H" by (rule d(6))
  define s' where "s' = \<lparr>edges = rest @ pushed F L c, loops = loops s,
                  flat_mask = (flat_mask s)\<lparr>cell := (cell (flat_mask s))
                     (c := towards_value H L c (cell (flat_mask s) c) (loops s))\<rparr>,
                  flat_height = flat_height s\<rparr>"
  note ta = towards_body_assign(1,2)[where F = F, OF i q c np, folded s'_def]
    towards_body_assign(4)[OF i q c np]
  have v: "cell (flat_mask s') c = towards_value H L c (cell (flat_mask s) c) (loops s)"
    by (simp add: s'_def)
  show "\<exists>s'. towards_body F L s = Inr s'
           \<and> cell (flat_mask s') c = towards_value H L c (cell (flat_mask s) c) (loops s)"
    using ta(1) v by blast
  have "cur_part (edges s) \<noteq> []" using wf_queue_Cons(3)[of L c rest] d(4) q c by simp
  then have cont: "bfs_cont s" using wf_queue_length_1[OF d(4)] by simp
  have st': "steps bfs_cont (towards_body F L) s0 s'" by (rule steps_step[OF st cont ta(1)])
  from towards_run[OF ta(2), of F] obtain t' where
    t': "while_loop bfs_cont (towards_body F L) s' = Some (Inr t')"
    "steps bfs_cont (towards_body F L) s' t'" by blast
  from steps_while_loop[OF st'] run t'(1) have "t' = t" by simp
  with t'(2) have "steps bfs_cont (towards_body F L) s' t" by simp
  from towards_steps_keep[OF this, of c] ta(3) v
  show "cell (flat_mask t) c = towards_value H L c (cell (flat_mask s) c) (loops s)" by simp
qed

subsection \<open>The cells that BuildTowardsCombinedGradient assigns\<close>

text \<open>A cell with a positive final mask is a low-edge seed or has no flow direction; the
  low-edge seeds have a flow direction.\<close>

lemma towards_assigned_cells:
  assumes f: "stage_facts E F M0 g L a t" and c: "0 < cell (flat_mask t) c"
  shows "c \<in> set (low_edges_of E F) \<or> cell F c = NO_FLOW"
proof -
  from f have t2: "tow_inv2 F L (flat_height a) (set (low_edges_of E F))
                     (negate_mask (flat_mask a)) t"
    and te: "cur_part (edges t) = []" "nxt_part (edges t) = []"
    unfolding stage_facts_def by blast+
  from tow_final(1)[OF t2 te c] obtain B where
    B: "(B = 1 \<and> c \<in> set (low_edges_of E F))
        \<or> (2 \<le> B \<and> (\<exists>p. c \<in> set (pushed F L p) \<and> 0 < cell (flat_mask t) p
              \<and> cell (flat_mask t) p
                  = towards_value (flat_height a) L p (cell (negate_mask (flat_mask a)) p) (B - 1)))"
    by (elim exE conjE) (rule that, assumption)
  from B show ?thesis
  proof (elim disjE conjE exE)
    assume "c \<in> set (low_edges_of E F)"
    then show ?thesis ..
  next
    fix p assume "c \<in> set (pushed F L p)"
    then have "cell F c = NO_FLOW" by (simp add: pushed_def)
    then show ?thesis ..
  qed
qed

lemma low_edges_have_direction:
  assumes "c \<in> set (low_edges_of E F)"
  shows "cell F c \<noteq> NO_FLOW"
proof -
  from assms have "is_low_edge E F c" unfolding low_edges_set by simp
  then show ?thesis unfolding is_low_edge_def by simp
qed

lemma dims_rim: "viewWidth E_rim = viewWidth F_rim" "viewHeight E_rim = viewHeight F_rim"
  by (simp_all add: E_rim_def F_rim_def raster_def)

lemma nodata_consistent_rim: "nodata_consistent E_rim F_rim"
  by (simp add: nodata_consistent_def E_rim_def F_rim_def eval_defs)

lemma low_edges_rim: "low_edges_of E_rim F_rim = [Cell 1 0]"
  by (simp add: find_flat_edges_def edge_body_def F_rim_def E_rim_def eval_defs)

lemma label_rim_corner:
  "map_option (map_sum id (\<lambda>r. cell (snd r) (Cell 0 0)))
     (label_flats E_rim (low_edges_of E_rim F_rim) 1 (initial_labels empty_raster F_rim))
   = Some (Inr 1)"
  by (simp add: find_flat_edges_def edge_body_def label_this_def label_body_def
      while_loop.simps F_rim_def E_rim_def resize_init_def empty_raster_def eval_defs)


section \<open>The elevations after d8_flats_alter_dem\<close>

lemma alter_body_cell:
  "cell (fst (alter_body q M L st c)) d =
     (if d = c \<and> cell L c \<noteq> 0 then (raise q ^^ nat (cell M c)) (cell (fst st) c)
      else cell (fst st) d)"
  by (simp add: alter_body_def Let_def)

lemma alter_fold_cell:
  "distinct xs \<Longrightarrow>
   cell (fst (foldl (alter_body q M L) st xs)) c =
     (if c \<in> set xs \<and> cell L c \<noteq> 0 then (raise q ^^ nat (cell M c)) (cell (fst st) c)
      else cell (fst st) c)"
  by (induction xs rule: rev_induct) (auto simp: alter_body_cell)

lemma distinct_concat_map:
  assumes "distinct xs" "\<And>x. distinct (f x)"
    and "\<And>x y. x \<noteq> y \<Longrightarrow> set (f x) \<inter> set (f y) = {}"
  shows "distinct (concat (map f xs))"
  using assms(1)
proof (induction xs)
  case Nil
  show ?case by simp
next
  case (Cons x xs)
  have "set (f x) \<inter> set (f y) = {}" if "y \<in> set xs" for y
    using assms(3)[of x y] Cons.prems that by auto
  then show ?case using Cons assms(2) by auto
qed

lemma distinct_interior_cells: "distinct (interior_cells M)"
  unfolding interior_cells_def
  by (rule distinct_concat_map) (auto simp: distinct_map inj_on_def)

text \<open>Every labelled interior cell is raised by as many steps as its mask says, and no
  other cell is changed.\<close>

lemma d8_flats_alter_dem_cell:
  "cell (fst (d8_flats_alter_dem q M L E)) c =
     (if c \<in> set (interior_cells M) \<and> cell L c \<noteq> 0
      then (raise q ^^ nat (cell M c)) (cell E c) else cell E c)"
  unfolding d8_flats_alter_dem_def
  by (simp add: alter_fold_cell[OF distinct_interior_cells])

text \<open>For \<^verbatim>\<open>float\<close> a step is the next representable number.\<close>

lemma raise_float: "mant v < 2 ^ 24 \<Longrightarrow> raise 24 v = next_up 24 v"
  by (cases v) (simp add: raise_def narrow_def widen_def nextafterf_def next_up_def Let_def)

section \<open>The early exit of resolve_flats_barnes\<close>

text \<open>
  Claim C7. If \<^verbatim>\<open>low_edges\<close> is empty after the edge scan, whether or not
  \<^verbatim>\<open>high_edges\<close> is empty, \<^verbatim>\<open>resolve_flats_barnes\<close> returns at once: the labels
  and the mask are the freshly initialised rasters (zero in every cell, the NoData value of
  the mask set to -1), nothing is labelled, no gradient is built, and the one diagnostic
  emitted tells the two cases apart.
\<close>

theorem resolve_without_low_edges:
  assumes "fst (find_flat_edges flowdirs elevations) = []"
  shows "resolve_flats_barnes elevations flowdirs flat_mask_in labels_in =
           Some (Inr \<lparr>res_flat_mask = (resize_init flat_mask_in elevations 0)\<lparr>noData := -1\<rparr>,
                      res_labels = resize_init labels_in flowdirs 0,
                      res_diag = (if snd (find_flat_edges flowdirs elevations) = []
                                  then [NoFlats] else [FlatsWithoutOutlets])\<rparr>)
         \<and> (\<forall>c. cell (resize_init labels_in flowdirs 0) c = 0)
         \<and> (\<forall>c. cell ((resize_init flat_mask_in elevations 0)\<lparr>noData := -1\<rparr>) c = 0)
         \<and> noData ((resize_init flat_mask_in elevations 0)\<lparr>noData := -1\<rparr>) = -1"
  using assms
  by (cases "find_flat_edges flowdirs elevations")
     (auto simp: resolve_flats_barnes_def resize_init_def)

theorem resolve_without_low_edges_witness:
  "fst (find_flat_edges F_pit E_pit) = []
   \<and> (\<exists>r. resolve_flats_barnes E_pit F_pit empty_raster empty_raster = Some (Inr r)
          \<and> cell (res_labels r) (Cell 2 2) = 0 \<and> cell (res_flat_mask r) (Cell 2 2) = 0
          \<and> noData (res_flat_mask r) = -1 \<and> res_diag r = [FlatsWithoutOutlets])"
  using resolve_without_low_edges[of F_pit E_pit empty_raster empty_raster]
  by (simp add: find_flat_edges_pit resize_init_def)

section \<open>The tie-break of d8_masked_FlowDir\<close>

lemma masked_body_update:
  "masked_body M L c (me, fd) n =
     (if cell L (nbr c n) = cell L c
         \<and> (cell M (nbr c n) < me
            \<or> (cell M (nbr c n) = me \<and> 0 < fd \<and> even fd \<and> odd n))
      then (cell M (nbr c n), int n) else (me, fd))"
  by (auto simp: masked_body_def Let_def even_iff_mod_2_eq_zero odd_iff_mod_2_eq_one)

lemma d8_flow_flats_fold:
  "cell (foldl (\<lambda>fd c.
        if cell M c = noData M then fd
        else if cell fd c = NO_FLOW
          then fd\<lparr>cell := (cell fd)(c := d8_masked_FlowDir M L (cx c) (cy c))\<rparr>
          else fd) F xs) c =
     (if c \<in> set xs \<and> cell M c \<noteq> noData M \<and> cell F c = NO_FLOW
      then d8_masked_FlowDir M L (cx c) (cy c) else cell F c)"
  by (induction xs rule: rev_induct) auto

lemma d8_flow_flats_cell:
  "cell (d8_flow_flats M L F) c =
     (if c \<in> set (interior_cells M) \<and> cell M c \<noteq> noData M
         \<and> cell F c = NO_FLOW
      then d8_masked_FlowDir M L (cx c) (cy c) else cell F c)"
  unfolding d8_flow_flats_def by (rule d8_flow_flats_fold)

lemma masked_tie_break:
  assumes l2: "cell L (nbr (Cell x y) 2) = cell L (Cell x y)"
    and l3: "cell L (nbr (Cell x y) 3) = cell L (Cell x y)"
    and m2: "cell M (nbr (Cell x y) 2) = m" and m3: "cell M (nbr (Cell x y) 3) = m"
    and lt: "m < cell M (Cell x y)"
    and n1: "cell L (nbr (Cell x y) 1) \<noteq> cell L (Cell x y) \<or> m < cell M (nbr (Cell x y) 1)"
    and rest: "\<forall>n\<in>{4, 5, 6, 7, 8}. cell L (nbr (Cell x y) n) \<noteq> cell L (Cell x y)
                 \<or> m \<le> cell M (nbr (Cell x y) n)"
  shows "d8_masked_FlowDir M L x y = 3"
proof -
  let ?f = "masked_body M L (Cell x y)"
  obtain me1 fd1 where s1: "?f (cell M (Cell x y), NO_FLOW) 1 = (me1, fd1)"
    by (cases "?f (cell M (Cell x y), NO_FLOW) 1")
  have me1: "m < me1" using s1 n1 lt by (auto simp: masked_body_update split: if_splits)
  have s2: "?f (me1, fd1) 2 = (m, 2)" using me1 l2 m2 by (simp add: masked_body_update)
  have s3: "?f (m, 2) 3 = (m, 3)" using l3 m3 by (simp add: masked_body_update)
  have keep: "?f (m, 3) n = (m, 3)" if "n \<in> {4, 5, 6, 7, 8}" for n
    using rest that by (auto simp: masked_body_update)
  show ?thesis
    by (simp add: d8_masked_FlowDir_def dirs_def s1 s2 s3 keep del: One_nat_def)
qed

text \<open>
  Claim C8. In \<^verbatim>\<open>d8_masked_FlowDir\<close>, which \<^verbatim>\<open>d8_flow_flats\<close> calls for every
  interior cell whose mask is not NoData and whose direction is \<^verbatim>\<open>NO_FLOW\<close>, the
  candidate is replaced exactly when the neighbour has the label of the cell and its mask is
  strictly below the current best, or equal to it while the current candidate direction is
  positive and even and the neighbour's index is odd. Hence, when the neighbours 2 and 3
  are in the flat of the cell and share a mask \<open>m\<close> below the mask of the cell, the
  neighbour 1 is not a candidate with a mask of at most \<open>m\<close>, and no later neighbour of
  the flat has a mask below \<open>m\<close>, the cell receives the direction 3 (scenario S5).
\<close>

theorem d8_tie_break_prefers_cardinal:
  assumes "(Cell x y) \<in> set (interior_cells M)" and "cell M (Cell x y) \<noteq> noData M"
    and "cell F (Cell x y) = NO_FLOW"
    and "cell L (nbr (Cell x y) 2) = cell L (Cell x y)" and "cell L (nbr (Cell x y) 3) = cell L (Cell x y)"
    and "cell M (nbr (Cell x y) 2) = m" and "cell M (nbr (Cell x y) 3) = m"
    and "m < cell M (Cell x y)"
    and "cell L (nbr (Cell x y) 1) \<noteq> cell L (Cell x y) \<or> m < cell M (nbr (Cell x y) 1)"
    and "\<forall>n\<in>{4, 5, 6, 7, 8}. cell L (nbr (Cell x y) n) \<noteq> cell L (Cell x y)
           \<or> m \<le> cell M (nbr (Cell x y) n)"
  shows "(\<forall>me fd n. masked_body M L (Cell x y) (me, fd) n =
            (if cell L (nbr (Cell x y) n) = cell L (Cell x y)
                \<and> (cell M (nbr (Cell x y) n) < me
                   \<or> (cell M (nbr (Cell x y) n) = me \<and> 0 < fd \<and> even fd \<and> odd n))
             then (cell M (nbr (Cell x y) n), int n) else (me, fd)))
         \<and> d8_masked_FlowDir M L x y = 3
         \<and> cell (d8_flow_flats M L F) (Cell x y) = 3"
  using assms masked_tie_break[of L x y M m]
  by (simp add: masked_body_update d8_flow_flats_cell)

theorem d8_tie_break_prefers_cardinal_witness:
  "(Cell 1 1) \<in> set (interior_cells M_tie) \<and> cell M_tie (Cell 1 1) \<noteq> noData M_tie
   \<and> cell F_tie (Cell 1 1) = NO_FLOW
   \<and> cell M_tie (nbr (Cell 1 1) 2) = 2 \<and> cell M_tie (nbr (Cell 1 1) 3) = 2
   \<and> cell M_tie (nbr (Cell 1 1) 5) = 2
   \<and> d8_masked_FlowDir M_tie L_tie 1 1 = 3
   \<and> cell (d8_flow_flats M_tie L_tie F_tie) (Cell 1 1) = 3"
  using d8_tie_break_prefers_cardinal[of 1 1 M_tie F_tie L_tie 2]
  by (simp add: M_tie_def L_tie_def F_tie_def eval_defs)


section \<open>The reads of flat_height\<close>

text \<open>
  Claim C9. In \<^verbatim>\<open>resolve_flats_barnes\<close> every read and write
  \<^verbatim>\<open>flat_height[labels(x,y)]\<close> of the two gradient procedures is in bounds:
  \<^verbatim>\<open>flat_height\<close> has the length \<^verbatim>\<open>group_number\<close>, every label is at least 0 and
  below \<^verbatim>\<open>group_number\<close>, and in every state that one of the two loops passes
  through, every cell of the queue other than the marker is in the grid and carries such a
  label, so that the loop body does not fail there. For rasters of equal dimensions the
  procedure therefore returns without an error.
\<close>

theorem flat_height_index_in_bounds:
  assumes dims: "viewWidth E = viewWidth F" "viewHeight E = viewHeight F"
  shows "\<exists>g L a t.
       label_flats E (low_edges_of E F) 1 (initial_labels L_in F) = Some (Inr (g, L))
     \<and> (\<forall>c. 0 \<le> cell L c \<and> cell L c < g)
     \<and> BuildAwayGradient F (initial_mask M_in E) (pruned_high_edges E F L)
          (replicate (nat g) 0) L = Some (Inr a)
     \<and> BuildTowardsCombinedGradient F (flat_mask a) (low_edges_of E F) (flat_height a) L
          = Some (Inr t)
     \<and> (\<forall>s. steps bfs_cont (away_body F L)
               (away_start (pruned_high_edges E F L) (initial_mask M_in E) (replicate (nat g) 0)) s
            \<longrightarrow> int (length (flat_height s)) = g
               \<and> (\<forall>c\<in>set (edges s). cx c \<noteq> -1 \<longrightarrow>
                     in_grid L c \<and> 0 \<le> cell L c \<and> cell L c < int (length (flat_height s)))
               \<and> (bfs_cont s \<longrightarrow> (\<exists>s'. away_body F L s = Inr s')))
     \<and> (\<forall>s. steps bfs_cont (towards_body F L)
               (towards_start (low_edges_of E F) (flat_mask a) (flat_height a)) s
            \<longrightarrow> int (length (flat_height s)) = g
               \<and> (\<forall>c\<in>set (edges s). cx c \<noteq> -1 \<longrightarrow>
                     in_grid L c \<and> 0 \<le> cell L c \<and> cell L c < int (length (flat_height s)))
               \<and> (bfs_cont s \<longrightarrow> (\<exists>s'. towards_body F L s = Inr s')))
     \<and> (\<exists>r. resolve_flats_barnes E F M_in L_in = Some (Inr r))"
proof -
  from stage_labelling[where E = E and F = F and L_in = L_in] obtain g L where
    lab: "label_flats E (low_edges_of E F) 1 (initial_labels L_in F) = Some (Inr (g, L))"
    and inv: "labelling_inv E g L" and Ld: "viewWidth L = viewWidth F" "viewHeight L = viewHeight F"
    by blast
  have g1: "1 \<le> g" and rng: "\<forall>c. 0 \<le> cell L c \<and> cell L c < g"
    using inv unfolding labelling_inv_def by blast+
  from stage_away[OF dims inv Ld, where M_in = M_in] obtain a where
    a: "BuildAwayGradient F (initial_mask M_in E) (pruned_high_edges E F L)
          (replicate (nat g) 0) L = Some (Inr a)"
    and ainv: "away_inv1 L (initial_mask M_in E) (nat g) a"
    by blast
  from stage_towards[OF ainv Ld] obtain t where
    t: "BuildTowardsCombinedGradient F (flat_mask a) (low_edges_of E F) (flat_height a) L
          = Some (Inr t)"
    by blast
  have len_a: "length (flat_height a) = nat g" using away_inv1D(6)[OF ainv] .
  have away: "int (length (flat_height s)) = g
               \<and> (\<forall>c\<in>set (edges s). cx c \<noteq> -1 \<longrightarrow>
                     in_grid L c \<and> 0 \<le> cell L c \<and> cell L c < int (length (flat_height s)))
               \<and> (bfs_cont s \<longrightarrow> (\<exists>s'. away_body F L s = Inr s'))"
    if "steps bfs_cont (away_body F L)
          (away_start (pruned_high_edges E F L) (initial_mask M_in E) (replicate (nat g) 0)) s"
    for s
  proof -
    have i: "away_inv1 L (initial_mask M_in E) (nat g) s"
      by (rule away_inv1_steps[OF that away_start_inv[OF dims inv Ld]])
    note d = away_inv1D[OF i]
    show ?thesis
      using d(6) g1 wf_queue_labels[OF d(4) d(7)] away_step1[OF i, of F] by auto
  qed
  have tow: "int (length (flat_height s)) = g
               \<and> (\<forall>c\<in>set (edges s). cx c \<noteq> -1 \<longrightarrow>
                     in_grid L c \<and> 0 \<le> cell L c \<and> cell L c < int (length (flat_height s)))
               \<and> (bfs_cont s \<longrightarrow> (\<exists>s'. towards_body F L s = Inr s'))"
    if "steps bfs_cont (towards_body F L)
          (towards_start (low_edges_of E F) (flat_mask a) (flat_height a)) s"
    for s
  proof -
    have i: "tow_inv1 L (negate_mask (flat_mask a)) (flat_height a) s"
      by (rule tow_inv1_steps[OF that towards_start_inv[OF ainv Ld]])
    note d = tow_inv1D[OF i]
    show ?thesis
      using d(6) len_a g1 wf_queue_labels[OF d(4) d(7)] towards_step1[OF i, of F] by auto
  qed
  have res: "\<exists>r. resolve_flats_barnes E F M_in L_in = Some (Inr r)"
  proof (cases "low_edges_of E F = []")
    case True
    then show ?thesis
      by (cases "find_flat_edges F E") (simp add: resolve_flats_barnes_def)
  next
    case False
    from resolve_flats_barnes_stages[OF False lab a t] show ?thesis by blast
  qed
  from lab rng a t away tow res show ?thesis by blast
qed

theorem flat_height_index_in_bounds_witness:
  "viewWidth E_s2 = viewWidth F_s2 \<and> viewHeight E_s2 = viewHeight F_s2
   \<and> (\<exists>g L a t.
       label_flats E_s2 (low_edges_of E_s2 F_s2) 1 (initial_labels empty_raster F_s2)
         = Some (Inr (g, L))
     \<and> BuildAwayGradient F_s2 (initial_mask empty_raster E_s2) (pruned_high_edges E_s2 F_s2 L)
          (replicate (nat g) 0) L = Some (Inr a)
     \<and> BuildTowardsCombinedGradient F_s2 (flat_mask a) (low_edges_of E_s2 F_s2) (flat_height a) L
          = Some (Inr t))
   \<and> (\<exists>r. resolve_flats_barnes E_s2 F_s2 empty_raster empty_raster = Some (Inr r))"
proof -
  have d: "viewWidth E_s2 = viewWidth F_s2" "viewHeight E_s2 = viewHeight F_s2"
    by (simp_all add: E_s2_def F_s2_def raster_def)
  from flat_height_index_in_bounds[OF d, where M_in = empty_raster and L_in = empty_raster] d
  show ?thesis by blast
qed


section \<open>The number of labels and the length of flat_height\<close>

lemma group_number_s2:
  "map_option (map_sum id fst)
     (label_flats E_s2 (low_edges_of E_s2 F_s2) 1 (initial_labels empty_raster F_s2))
   = Some (Inr 2)"
  by (simp add: find_flat_edges_def edge_body_def label_this_def label_body_def
      while_loop.simps F_s2_def E_s2_def resize_init_def empty_raster_def eval_defs)

text \<open>
  Claim C4, as stated, says that \<open>K\<close>, the number of distinct labels in the label raster
  after the labelling loop, equals the final value of \<^verbatim>\<open>group_number\<close>. In scenario S2
  the loop ends with \<^verbatim>\<open>group_number = 2\<close> and one label.
\<close>

theorem label_count_counterexample:
  "(case label_flats E_s2 (low_edges_of E_s2 F_s2) 1 (initial_labels empty_raster F_s2) of
      Some (Inr (g, L)) \<Rightarrow> g = 2 \<and> label_count L = 1 \<and> int (label_count L) \<noteq> g
    | _ \<Rightarrow> False)"
proof -
  from stage_labelling[where E = E_s2 and F = F_s2 and L_in = empty_raster] obtain g L where
    lab: "label_flats E_s2 (low_edges_of E_s2 F_s2) 1 (initial_labels empty_raster F_s2)
            = Some (Inr (g, L))"
    and inv: "labelling_inv E_s2 g L"
    by blast
  have "g = 2" using group_number_s2 unfolding lab by simp
  moreover have "int (label_count L) = g - 1" by (rule label_count_labelling_inv[OF inv])
  ultimately show ?thesis unfolding lab by simp
qed

text \<open>
  Claim C4, amended. \<^verbatim>\<open>group_number\<close> starts at 1 and is incremented once for each
  flood fill, so after the labelling loop the labels in use are exactly
  \<open>1, ..., group_number - 1\<close>: the number \<open>K\<close> of distinct labels is
  \<open>group_number - 1\<close>. The vector \<^verbatim>\<open>flat_height\<close> has the length
  \<^verbatim>\<open>group_number = K + 1\<close> (indices \<open>0..K\<close>), when it is allocated and when
  \<^verbatim>\<open>BuildAwayGradient\<close> returns.
\<close>

theorem label_count_is_group_number_minus_one:
  assumes dims: "viewWidth E = viewWidth F" "viewHeight E = viewHeight F"
  shows "\<exists>g L a.
       label_flats E (low_edges_of E F) 1 (initial_labels L_in F) = Some (Inr (g, L))
     \<and> 1 \<le> g \<and> int (label_count L) = g - 1
     \<and> (\<forall>l. (\<exists>c. in_grid L c \<and> cell L c = l \<and> 0 < l) \<longleftrightarrow> 1 \<le> l \<and> l < g)
     \<and> length (replicate (nat g) (0::int)) = label_count L + 1
     \<and> BuildAwayGradient F (initial_mask M_in E) (pruned_high_edges E F L)
          (replicate (nat g) 0) L = Some (Inr a)
     \<and> length (flat_height a) = label_count L + 1"
proof -
  from stage_labelling[where E = E and F = F and L_in = L_in] obtain g L where
    lab: "label_flats E (low_edges_of E F) 1 (initial_labels L_in F) = Some (Inr (g, L))"
    and inv: "labelling_inv E g L" and Ld: "viewWidth L = viewWidth F" "viewHeight L = viewHeight F"
    by blast
  from inv have g1: "1 \<le> g" unfolding labelling_inv_def by blast
  from inv have rng: "\<And>c. cell L c < g" unfolding labelling_inv_def by blast
  from inv have used: "\<And>l. 1 \<le> l \<Longrightarrow> l < g \<Longrightarrow> \<exists>c. in_grid L c \<and> cell L c = l"
    unfolding labelling_inv_def by blast
  from stage_away[OF dims inv Ld, where M_in = M_in] obtain a where
    a: "BuildAwayGradient F (initial_mask M_in E) (pruned_high_edges E F L)
          (replicate (nat g) 0) L = Some (Inr a)"
    and ainv: "away_inv1 L (initial_mask M_in E) (nat g) a"
    by blast
  have k: "int (label_count L) = g - 1" by (rule label_count_labelling_inv[OF inv])
  then have n: "nat g = label_count L + 1" using g1 by linarith
  have labels: "(\<exists>c. in_grid L c \<and> cell L c = l \<and> 0 < l) \<longleftrightarrow> 1 \<le> l \<and> l < g" for l
    using rng used[of l] by auto
  have len: "length (flat_height a) = label_count L + 1" using away_inv1D(6)[OF ainv] n by simp
  show ?thesis
  proof (intro exI conjI allI)
    show "label_flats E (low_edges_of E F) 1 (initial_labels L_in F) = Some (Inr (g, L))"
      by (rule lab)
    show "1 \<le> g" by (rule g1)
    show "int (label_count L) = g - 1" by (rule k)
    show "(\<exists>c. in_grid L c \<and> cell L c = l \<and> 0 < l) \<longleftrightarrow> 1 \<le> l \<and> l < g" for l
      by (rule labels)
    show "length (replicate (nat g) (0::int)) = label_count L + 1" using n by simp
    show "BuildAwayGradient F (initial_mask M_in E) (pruned_high_edges E F L)
          (replicate (nat g) 0) L = Some (Inr a)" by (rule a)
    show "length (flat_height a) = label_count L + 1" by (rule len)
  qed
qed

theorem label_count_is_group_number_minus_one_witness:
  "viewWidth E_s2 = viewWidth F_s2 \<and> viewHeight E_s2 = viewHeight F_s2
   \<and> (\<exists>g L a.
       label_flats E_s2 (low_edges_of E_s2 F_s2) 1 (initial_labels empty_raster F_s2)
         = Some (Inr (g, L))
     \<and> int (label_count L) = g - 1
     \<and> BuildAwayGradient F_s2 (initial_mask empty_raster E_s2) (pruned_high_edges E_s2 F_s2 L)
          (replicate (nat g) 0) L = Some (Inr a)
     \<and> length (flat_height a) = label_count L + 1)"
proof -
  have d: "viewWidth E_s2 = viewWidth F_s2" "viewHeight E_s2 = viewHeight F_s2"
    by (simp_all add: E_s2_def F_s2_def raster_def)
  from label_count_is_group_number_minus_one[OF d, where M_in = empty_raster and L_in = empty_raster]
  obtain g L a where
    "label_flats E_s2 (low_edges_of E_s2 F_s2) 1 (initial_labels empty_raster F_s2)
       = Some (Inr (g, L))"
    "int (label_count L) = g - 1"
    "BuildAwayGradient F_s2 (initial_mask empty_raster E_s2) (pruned_high_edges E_s2 F_s2 L)
       (replicate (nat g) 0) L = Some (Inr a)"
    "length (flat_height a) = label_count L + 1"
    by (elim exE conjE) (rule that; assumption)
  with d show ?thesis by (intro conjI exI)
qed


section \<open>Labels are written once\<close>

text \<open>
  Claim C10. Throughout the labelling phase of \<^verbatim>\<open>resolve_flats_barnes\<close> a positive
  label is never overwritten. \<^verbatim>\<open>label_this\<close> drops a dequeued cell whose label is
  positive; the loop over \<^verbatim>\<open>low_edges\<close> skips a seed that is labelled; a flood fill
  from the seed \<open>i\<close> writes only its own group number \<open>g1\<close>, and only to cells whose label
  was 0; and all later fills leave every positive label as it is. So a cell bears, to the
  end, the group number of the first seed in queue order whose fill reached it.
\<close>

theorem labels_written_once:
  assumes low: "low_edges_of E F = xs @ i # ys"
  shows "\<exists>g1 L1 g2 L2 gf Lf.
       label_flats E xs 1 (initial_labels L_in F) = Some (Inr (g1, L1))
     \<and> label_flats E (xs @ [i]) 1 (initial_labels L_in F) = Some (Inr (g2, L2))
     \<and> label_flats E (low_edges_of E F) 1 (initial_labels L_in F) = Some (Inr (gf, Lf))
     \<and> (cell L1 i \<noteq> 0 \<longrightarrow> g2 = g1 \<and> L2 = L1)
     \<and> (cell L1 i = 0 \<longrightarrow> g2 = g1 + 1 \<and> label_this (cx i) (cy i) g1 L1 E = Some (Inr L2))
     \<and> (\<forall>c. 0 < cell L1 c \<longrightarrow> cell L2 c = cell L1 c)
     \<and> (\<forall>c. cell L2 c \<noteq> cell L1 c \<longrightarrow> cell L1 c = 0 \<and> cell L2 c = g1 \<and> 0 < g1)
     \<and> (\<forall>c. 0 < cell L2 c \<longrightarrow> cell Lf c = cell L2 c)
     \<and> (\<forall>t l s c rest. to_fill s = c # rest \<and> in_grid (lab s) c \<and> 0 < cell (lab s) c
            \<longrightarrow> label_body E t l s = Inr (s\<lparr>to_fill := rest\<rparr>))"
proof -
  let ?L0 = "initial_labels L_in F"
  have ig0: "in_grid ?L0 = in_grid F" by (rule in_grid_cong) (simp_all add: resize_init_def)
  have seeds: "\<forall>j\<in>set (xs @ i # ys). in_grid ?L0 j"
    using low_edges_set[where E = E and F = F] ig0 unfolding low by auto
  from label_flats_total_plain[of xs ?L0 E 1, OF _ labelling_inv_initial] seeds obtain g1 L1 where
    r1: "label_flats E xs 1 ?L0 = Some (Inr (g1, L1))" and inv1: "labelling_inv E g1 L1"
    and d1: "viewWidth L1 = viewWidth ?L0" "viewHeight L1 = viewHeight ?L0"
    by auto
  have ig1: "in_grid L1 = in_grid ?L0" by (rule in_grid_cong[OF d1])
  have gi: "in_grid L1 i" using seeds ig1 by simp
  from inv1 have g1: "0 < g1" unfolding labelling_inv_def by linarith
  from inv1 have rng1: "\<And>c. 0 \<le> cell L1 c" unfolding labelling_inv_def by blast
  have "\<exists>g2 L2. label_flats E [i] g1 L1 = Some (Inr (g2, L2)) \<and> labelling_inv E g2 L2
          \<and> viewWidth L2 = viewWidth L1 \<and> viewHeight L2 = viewHeight L1
          \<and> (cell L1 i \<noteq> 0 \<longrightarrow> g2 = g1 \<and> L2 = L1)
          \<and> (cell L1 i = 0 \<longrightarrow> g2 = g1 + 1 \<and> label_this (cx i) (cy i) g1 L1 E = Some (Inr L2))
          \<and> (\<forall>c. cell L2 c = cell L1 c \<or> (cell L1 c \<le> 0 \<and> cell L2 c = g1))"
  proof (cases "cell L1 i = 0")
    case False
    then show ?thesis using gi inv1 by simp
  next
    case True
    from label_this_filled[OF gi _ g1, of E] True obtain L2 where f: "filled E i g1 L1 L2" by auto
    from f have lt: "label_this (cx i) (cy i) g1 L1 E = Some (Inr L2)"
      unfolding filled_def by blast
    from f have d2: "viewWidth L2 = viewWidth L1" "viewHeight L2 = viewHeight L1"
      unfolding filled_def by blast+
    from f have frame: "\<forall>c. cell L2 c = cell L1 c \<or> (cell L1 c \<le> 0 \<and> cell L2 c = g1)"
      unfolding filled_def by blast
    have "label_flats E [i] g1 L1 = Some (Inr (g1 + 1, L2))" using gi True lt by simp
    with labelling_inv_filled[OF inv1 f] d2 True lt frame show ?thesis by blast
  qed
  then obtain g2 L2 where
    r2: "label_flats E [i] g1 L1 = Some (Inr (g2, L2))" and inv2: "labelling_inv E g2 L2"
    and d2: "viewWidth L2 = viewWidth L1" "viewHeight L2 = viewHeight L1"
    and skip: "cell L1 i \<noteq> 0 \<longrightarrow> g2 = g1 \<and> L2 = L1"
    and fill: "cell L1 i = 0 \<longrightarrow> g2 = g1 + 1 \<and> label_this (cx i) (cy i) g1 L1 E = Some (Inr L2)"
    and frame: "\<forall>c. cell L2 c = cell L1 c \<or> (cell L1 c \<le> 0 \<and> cell L2 c = g1)"
    by blast
  have ig2: "in_grid L2 = in_grid L1" by (rule in_grid_cong[OF d2])
  have "\<forall>j\<in>set ys. in_grid L2 j" using seeds ig1 ig2 by simp
  from label_flats_total_plain[OF this inv2] obtain gf Lf where
    rf: "label_flats E ys g2 L2 = Some (Inr (gf, Lf))"
    and keep: "\<forall>c. 0 < cell L2 c \<longrightarrow> cell Lf c = cell L2 c"
    by blast
  have a2: "label_flats E (xs @ [i]) 1 ?L0 = Some (Inr (g2, L2))"
    by (simp add: label_flats_append[of E xs "[i]"] r1 r2 del: label_flats.simps)
  have "label_flats E ((xs @ [i]) @ ys) 1 ?L0 = Some (Inr (gf, Lf))"
    by (simp only: label_flats_append[of E "xs @ [i]" ys] a2 rf option.case sum.case prod.case)
  then have af: "label_flats E (low_edges_of E F) 1 ?L0 = Some (Inr (gf, Lf))"
    unfolding low by simp
  have once: "\<forall>c. 0 < cell L1 c \<longrightarrow> cell L2 c = cell L1 c" using frame by auto
  have own: "\<forall>c. cell L2 c \<noteq> cell L1 c \<longrightarrow> cell L1 c = 0 \<and> cell L2 c = g1 \<and> 0 < g1"
    using frame rng1 g1 by (metis order_antisym)
  have drop: "\<forall>t l s c rest. to_fill s = c # rest \<and> in_grid (lab s) c \<and> 0 < cell (lab s) c
            \<longrightarrow> label_body E t l s = Inr (s\<lparr>to_fill := rest\<rparr>)"
    by (simp add: label_body_def)
  show ?thesis
    by (intro exI conjI) (rule r1 a2 af skip fill once own keep drop)+
qed

theorem labels_written_once_witness:
  "low_edges_of E_s2 F_s2 = [] @ Cell 3 1 # [Cell 3 2, Cell 3 3]
   \<and> (\<exists>g1 L1 g2 L2 gf Lf.
       label_flats E_s2 [] 1 (initial_labels empty_raster F_s2) = Some (Inr (g1, L1))
     \<and> label_flats E_s2 ([] @ [Cell 3 1]) 1 (initial_labels empty_raster F_s2) = Some (Inr (g2, L2))
     \<and> label_flats E_s2 (low_edges_of E_s2 F_s2) 1 (initial_labels empty_raster F_s2)
          = Some (Inr (gf, Lf))
     \<and> cell L1 (Cell 1 1) = 0 \<and> cell L2 (Cell 1 1) = g1 \<and> cell Lf (Cell 1 1) = cell L2 (Cell 1 1))"
proof -
  have low: "low_edges_of E_s2 F_s2 = [] @ Cell 3 1 # [Cell 3 2, Cell 3 3]"
    by (simp add: low_edges_s2)
  from labels_written_once[OF low, where L_in = empty_raster]
  obtain g1 L1 g2 L2 gf Lf where
    r: "label_flats E_s2 [] 1 (initial_labels empty_raster F_s2) = Some (Inr (g1, L1))"
       "label_flats E_s2 ([] @ [Cell 3 1]) 1 (initial_labels empty_raster F_s2) = Some (Inr (g2, L2))"
       "label_flats E_s2 (low_edges_of E_s2 F_s2) 1 (initial_labels empty_raster F_s2)
          = Some (Inr (gf, Lf))"
    and own: "\<forall>c. cell L2 c \<noteq> cell L1 c \<longrightarrow> cell L1 c = 0 \<and> cell L2 c = g1 \<and> 0 < g1"
    and keep: "\<forall>c. 0 < cell L2 c \<longrightarrow> cell Lf c = cell L2 c"
    by (elim exE conjE) (rule that; assumption)
  from r(1) have L1: "g1 = 1" "L1 = initial_labels empty_raster F_s2" by simp_all
  have "map_option (map_sum id (\<lambda>p. cell (snd p) (Cell 1 1)))
          (label_flats E_s2 ([] @ [Cell 3 1]) 1 (initial_labels empty_raster F_s2)) = Some (Inr 1)"
    by (simp add: label_this_def label_body_def while_loop.simps F_s2_def E_s2_def
        resize_init_def empty_raster_def eval_defs)
  then have c2: "cell L2 (Cell 1 1) = 1" unfolding r(2) by simp
  have c1: "cell L1 (Cell 1 1) = 0" unfolding L1 by (simp add: resize_init_def)
  have "cell L2 (Cell 1 1) = g1" using own c1 c2 by (metis zero_neq_one)
  moreover have "cell Lf (Cell 1 1) = cell L2 (Cell 1 1)" using keep c2 by simp
  ultimately show ?thesis using low r c1 by (intro conjI exI)
qed


section \<open>The final mask is not negative\<close>

text \<open>
  Claim C6. When \<^verbatim>\<open>resolve_flats_barnes\<close> returns after both gradient stages (the
  rasters have equal dimensions, the directions and the elevations agree on NoData, and
  \<^verbatim>\<open>low_edges\<close> is not empty), every cell of the mask is at least 0; a cell with
  the label 0 has the mask 0; and every cell has the mask 0 or a mask of at least 1. So no
  cell keeps the negative value that the sign flip of \<^verbatim>\<open>BuildTowardsCombinedGradient\<close>
  wrote.
\<close>

theorem final_mask_nonnegative:
  assumes dims: "viewWidth E = viewWidth F" "viewHeight E = viewHeight F"
    and nd: "nodata_consistent E F" and low: "low_edges_of E F \<noteq> []"
  shows "\<exists>r. resolve_flats_barnes E F M_in L_in = Some (Inr r)
           \<and> (\<forall>c. 0 \<le> cell (res_flat_mask r) c)
           \<and> (\<forall>c. cell (res_labels r) c = 0 \<longrightarrow> cell (res_flat_mask r) c = 0)
           \<and> (\<forall>c. cell (res_flat_mask r) c = 0 \<or> 1 \<le> cell (res_flat_mask r) c)"
proof -
  let ?M0 = "initial_mask M_in E"
  from stages_exist[OF dims, where M_in = M_in and L_in = L_in] obtain g L a t where
    st: "stages E F M_in L_in g L a t" and f: "stage_facts E F ?M0 g L a t"
    by blast
  have z: "\<forall>c. cell ?M0 c = 0" by (simp add: resize_init_def)
  note fm = final_mask_cases[OF f z nd]
  from f have t2: "tow_inv2 F L (flat_height a) (set (low_edges_of E F))
                     (negate_mask (flat_mask a)) t"
    and te: "cur_part (edges t) = []" "nxt_part (edges t) = []"
    unfolding stage_facts_def by blast+
  have 1: "\<forall>c. 0 \<le> cell (flat_mask t) c" using fm by (metis less_imp_le order_refl)
  have 2: "\<forall>c. cell L c = 0 \<longrightarrow> cell (flat_mask t) c = 0"
  proof (intro allI impI)
    fix c assume "cell L c = 0"
    then have "\<not> 0 < cell (flat_mask t) c" using tow_final(3)[OF t2 te, of c] by auto
    with fm[of c] show "cell (flat_mask t) c = 0" by simp
  qed
  have 3: "\<forall>c. cell (flat_mask t) c = 0 \<or> 1 \<le> cell (flat_mask t) c"
  proof
    fix c show "cell (flat_mask t) c = 0 \<or> 1 \<le> cell (flat_mask t) c" using fm[of c] by auto
  qed
  show ?thesis
    unfolding stages_resolve[OF st low] using 1 2 3 by simp
qed

theorem final_mask_nonnegative_witness:
  "viewWidth E_s2 = viewWidth F_s2 \<and> viewHeight E_s2 = viewHeight F_s2
   \<and> nodata_consistent E_s2 F_s2 \<and> low_edges_of E_s2 F_s2 \<noteq> []
   \<and> (\<exists>r. resolve_flats_barnes E_s2 F_s2 empty_raster empty_raster = Some (Inr r)
          \<and> 0 \<le> cell (res_flat_mask r) (Cell 2 2)
          \<and> (cell (res_flat_mask r) (Cell 0 0) = 0 \<or> 1 \<le> cell (res_flat_mask r) (Cell 0 0)))"
proof -
  have low: "low_edges_of E_s2 F_s2 \<noteq> []" by (simp add: low_edges_s2)
  from final_mask_nonnegative[OF dims_s2 nodata_consistent_s2 low,
      where M_in = empty_raster and L_in = empty_raster]
  obtain r where "resolve_flats_barnes E_s2 F_s2 empty_raster empty_raster = Some (Inr r)"
    "\<forall>c. 0 \<le> cell (res_flat_mask r) c"
    "\<forall>c. cell (res_flat_mask r) c = 0 \<or> 1 \<le> cell (res_flat_mask r) c"
    by blast
  then show ?thesis using dims_s2 nodata_consistent_s2 low by blast
qed


section \<open>Strict monotone drainage of the final mask\<close>

text \<open>
  Claim C1, as stated, says that after both gradient stages every labelled cell other than
  the low-edge seeds has an 8-neighbour with its label and a strictly lower mask, or else
  an 8-neighbour outside its flat at a strictly lower elevation. The flood fill labels
  every cell that is joined to a seed by cells of the seed's elevation, also one that has a
  flow direction and is not a seed; the gradient procedures do not assign such a cell. On
  the raster \<open>E_rim\<close>, whose flat reaches the border, the corner cell \<open>(0, 0)\<close> has a
  direction (it points out of the raster) and is not a low-edge seed; it is filled from the
  seed \<open>(1, 0)\<close>, gets the label 1 and keeps the mask 0, and none of its neighbours is
  lower or has a lower mask.
\<close>

theorem strict_monotone_drainage_counterexample:
  "(case resolve_flats_barnes E_rim F_rim empty_raster empty_raster of
      Some (Inr r) \<Rightarrow>
        in_grid (res_labels r) (Cell 0 0)
        \<and> cell (res_labels r) (Cell 0 0) = 1
        \<and> Cell 0 0 \<notin> set (low_edges_of E_rim F_rim)
        \<and> cell (res_flat_mask r) (Cell 0 0) = 0
        \<and> \<not> drains E_rim (res_labels r) (res_flat_mask r) (Cell 0 0)
    | _ \<Rightarrow> False)"
proof -
  let ?M0 = "initial_mask empty_raster E_rim" and ?c = "Cell 0 0"
  from stages_exist[OF dims_rim, where M_in = empty_raster and L_in = empty_raster]
  obtain g L a t where st: "stages E_rim F_rim empty_raster empty_raster g L a t"
    and f: "stage_facts E_rim F_rim ?M0 g L a t"
    by blast
  let ?T = "cell (flat_mask t)"
  have low: "low_edges_of E_rim F_rim \<noteq> []" by (simp add: low_edges_rim)
  note res = stages_resolve[OF st low]
  from st have lab: "label_flats E_rim (low_edges_of E_rim F_rim) 1
       (initial_labels empty_raster F_rim) = Some (Inr (g, L))"
    unfolding stages_def by blast
  from f have Ld: "viewWidth L = viewWidth F_rim" "viewHeight L = viewHeight F_rim"
    unfolding stage_facts_def by blast+
  have z: "\<forall>c. cell ?M0 c = 0" by (simp add: resize_init_def)
  have g: "in_grid L ?c" using Ld by (simp add: in_grid_def F_rim_def raster_def)
  have l: "cell L ?c = 1" using label_rim_corner unfolding lab by simp
  have ns: "?c \<notin> set (low_edges_of E_rim F_rim)" by (simp add: low_edges_rim)
  have d: "cell F_rim ?c \<noteq> NO_FLOW" by (simp add: F_rim_def eval_defs)
  have nn: "0 \<le> ?T c" for c
    using final_mask_cases[OF f z nodata_consistent_rim, of c] by auto
  have m: "?T ?c = 0"
    using towards_assigned_cells[OF f, of ?c] ns d nn[of ?c] by (cases "0 < ?T ?c") auto
  have e: "\<forall>k\<in>set dirs. \<not> cell E_rim (nbr ?c k) < cell E_rim ?c"
    by (simp add: E_rim_def eval_defs)
  have nd: "\<not> drains E_rim L (flat_mask t) ?c"
    unfolding drains_def using e nn m by (auto simp: not_less)
  have "in_grid L ?c \<and> cell L ?c = 1 \<and> ?c \<notin> set (low_edges_of E_rim F_rim)
        \<and> ?T ?c = 0 \<and> \<not> drains E_rim L (flat_mask t) ?c"
    using g l ns m nd by (intro conjI)
  then show ?thesis by (simp add: res)
qed

text \<open>
  Claim C1, amended. After \<^verbatim>\<open>resolve_flats_barnes\<close> has run both gradient stages (there
  is a low-edge cell), on rasters of equal dimensions whose directions agree with the
  elevations on NoData: every labelled cell without a flow direction (\<^verbatim>\<open>NO_FLOW\<close>) has
  an 8-neighbour in the grid with its label and a strictly lower mask. The low-edge seeds
  have a flow direction. A cell that has a flow direction and is not a low-edge seed keeps
  the mask 0, labelled or not.
\<close>

theorem flat_cells_drain:
  assumes dims: "viewWidth E = viewWidth F" "viewHeight E = viewHeight F"
    and nd: "nodata_consistent E F" and low: "low_edges_of E F \<noteq> []"
  shows "\<exists>r. resolve_flats_barnes E F M_in L_in = Some (Inr r)
           \<and> (\<forall>c. 0 < cell (res_labels r) c \<longrightarrow> cell F c = NO_FLOW
                  \<longrightarrow> in_grid (res_labels r) c
                    \<and> (\<exists>k\<in>set dirs. in_grid (res_labels r) (nbr c k)
                           \<and> cell (res_labels r) (nbr c k) = cell (res_labels r) c
                           \<and> cell (res_flat_mask r) (nbr c k) < cell (res_flat_mask r) c))
           \<and> (\<forall>c. c \<in> set (low_edges_of E F) \<longrightarrow> cell F c \<noteq> NO_FLOW)
           \<and> (\<forall>c. cell F c \<noteq> NO_FLOW \<longrightarrow> c \<notin> set (low_edges_of E F)
                  \<longrightarrow> cell (res_flat_mask r) c = 0)"
proof -
  let ?M0 = "initial_mask M_in E" and ?S = "set (low_edges_of E F)"
  from stages_exist[OF dims, where M_in = M_in and L_in = L_in] obtain g L a t where
    st: "stages E F M_in L_in g L a t" and f: "stage_facts E F ?M0 g L a t"
    by blast
  let ?T = "cell (flat_mask t)"
  have z: "\<forall>c. cell ?M0 c = 0" by (simp add: resize_init_def)
  from f nd have inv: "labelling_inv E g L"
    and fr: "flat_reached E F L"
    and t2: "tow_inv2 F L (flat_height a) ?S (negate_mask (flat_mask a)) t"
    and te: "cur_part (edges t) = []" "nxt_part (edges t) = []"
    unfolding stage_facts_def by blast+
  from inv have ing: "\<And>c. 0 < cell L c \<Longrightarrow> in_grid L c" unfolding labelling_inv_def by blast
  from fr have li: "label_inv2 F ?S L" unfolding flat_reached_def by blast
  have 1: "in_grid L c \<and> (\<exists>k\<in>set dirs. in_grid L (nbr c k) \<and> cell L (nbr c k) = cell L c
                 \<and> ?T (nbr c k) < ?T c)"
    if c: "0 < cell L c" "cell F c = NO_FLOW" for c
  proof -
    have g: "in_grid L c" by (rule ing[OF c(1)])
    have ns: "c \<notin> ?S" using low_edges_have_direction[where c = c and E = E and F = F] c(2) by blast
    from li g c have "treach F L ?S c" unfolding label_inv2_def by blast
    then have "0 < ?T c" by (rule tow_final(2)[OF t2 te])
    from towards_predecessor_lower[OF f z this ns] obtain p where
      p: "c \<in> set (pushed F L p)" "in_grid L p" "?T p < ?T c"
      by blast
    from p(1) obtain k where k: "k \<in> set dirs" "c = nbr p k" and l: "cell L c = cell L p"
      by (auto simp: pushed_def)
    from nbr_opposite[OF k(1), of p] k(2) obtain k' where "k' \<in> set dirs" "nbr c k' = p" by auto
    with p(2,3) l g show ?thesis by auto
  qed
  have 2: "cell F c \<noteq> NO_FLOW" if "c \<in> ?S" for c
    using that by (rule low_edges_have_direction)
  have 3: "?T c = 0" if d: "cell F c \<noteq> NO_FLOW" and ns: "c \<notin> ?S" for c
  proof -
    have "\<not> 0 < ?T c" using towards_assigned_cells[OF f, of c] d ns by blast
    with final_mask_cases[OF f z nd, of c] show ?thesis by blast
  qed
  let ?r = "\<lparr>res_flat_mask = flat_mask t, res_labels = L,
             res_diag = (if length (pruned_high_edges E F L) < length (high_edges_of E F)
                         then [NotAllFlatsHaveOutlets] else [])\<rparr>"
  have r: "resolve_flats_barnes E F M_in L_in = Some (Inr ?r)"
    by (rule stages_resolve[OF st low])
  have r1: "\<forall>c. 0 < cell (res_labels ?r) c \<longrightarrow> cell F c = NO_FLOW
                  \<longrightarrow> in_grid (res_labels ?r) c
                    \<and> (\<exists>k\<in>set dirs. in_grid (res_labels ?r) (nbr c k)
                           \<and> cell (res_labels ?r) (nbr c k) = cell (res_labels ?r) c
                           \<and> cell (res_flat_mask ?r) (nbr c k) < cell (res_flat_mask ?r) c)"
    using 1 by simp
  have r2: "\<forall>c. c \<in> ?S \<longrightarrow> cell F c \<noteq> NO_FLOW" using 2 by blast
  have r3: "\<forall>c. cell F c \<noteq> NO_FLOW \<longrightarrow> c \<notin> ?S \<longrightarrow> cell (res_flat_mask ?r) c = 0"
    using 3 by simp
  from r r1 r2 r3 show ?thesis by (intro exI[of _ ?r] conjI)
qed

theorem flat_cells_drain_witness:
  "viewWidth E_rim = viewWidth F_rim \<and> viewHeight E_rim = viewHeight F_rim
   \<and> nodata_consistent E_rim F_rim \<and> low_edges_of E_rim F_rim \<noteq> []
   \<and> (\<exists>r. resolve_flats_barnes E_rim F_rim empty_raster empty_raster = Some (Inr r)
          \<and> (\<forall>c. 0 < cell (res_labels r) c \<longrightarrow> cell F_rim c = NO_FLOW
                  \<longrightarrow> in_grid (res_labels r) c
                    \<and> (\<exists>k\<in>set dirs. in_grid (res_labels r) (nbr c k)
                           \<and> cell (res_labels r) (nbr c k) = cell (res_labels r) c
                           \<and> cell (res_flat_mask r) (nbr c k) < cell (res_flat_mask r) c))
          \<and> cell F_rim (Cell 1 0) \<noteq> NO_FLOW
          \<and> cell (res_flat_mask r) (Cell 0 0) = 0)"
proof -
  have low: "low_edges_of E_rim F_rim \<noteq> []" by (simp add: low_edges_rim)
  from flat_cells_drain[OF dims_rim nodata_consistent_rim low,
      where M_in = empty_raster and L_in = empty_raster]
  obtain r where r: "resolve_flats_barnes E_rim F_rim empty_raster empty_raster = Some (Inr r)"
    and 1: "\<forall>c. 0 < cell (res_labels r) c \<longrightarrow> cell F_rim c = NO_FLOW
                  \<longrightarrow> in_grid (res_labels r) c
                    \<and> (\<exists>k\<in>set dirs. in_grid (res_labels r) (nbr c k)
                           \<and> cell (res_labels r) (nbr c k) = cell (res_labels r) c
                           \<and> cell (res_flat_mask r) (nbr c k) < cell (res_flat_mask r) c)"
    and 2: "\<forall>c. c \<in> set (low_edges_of E_rim F_rim) \<longrightarrow> cell F_rim c \<noteq> NO_FLOW"
    and 3: "\<forall>c. cell F_rim c \<noteq> NO_FLOW \<longrightarrow> c \<notin> set (low_edges_of E_rim F_rim)
                  \<longrightarrow> cell (res_flat_mask r) c = 0"
    by (elim exE conjE) (rule that; assumption)
  have s: "Cell 1 0 \<in> set (low_edges_of E_rim F_rim)" by (simp add: low_edges_rim)
  have ns: "Cell 0 0 \<notin> set (low_edges_of E_rim F_rim)" by (simp add: low_edges_rim)
  have d: "cell F_rim (Cell 0 0) \<noteq> NO_FLOW" by (simp add: F_rim_def eval_defs)
  have a: "cell F_rim (Cell 1 0) \<noteq> NO_FLOW" using 2 s by blast
  have b: "cell (res_flat_mask r) (Cell 0 0) = 0" using 3 d ns by blast
  from dims_rim nodata_consistent_rim low r 1 a b show ?thesis by (intro conjI exI)
qed


section \<open>The mask and the heights after BuildAwayGradient\<close>

text \<open>
  Claim C2, as stated, says that after \<^verbatim>\<open>BuildAwayGradient\<close> the mask of a cell reached
  from a high-edge seed of its flat equals the minimum number of 8-neighbour hops from a
  high-edge cell to it. In scenario S2 the cell \<open>(1, 1)\<close> is a high-edge seed with the
  label 1, so it is reached in 0 hops; its mask is 1, the initial value of the counter
  \<^verbatim>\<open>loops\<close>.
\<close>

theorem away_mask_counterexample:
  "(case label_flats E_s2 (low_edges_of E_s2 F_s2) 1 (initial_labels empty_raster F_s2) of
      Some (Inr (g, L)) \<Rightarrow>
        (case BuildAwayGradient F_s2 (initial_mask empty_raster E_s2)
                (pruned_high_edges E_s2 F_s2 L) (replicate (nat g) 0) L of
           Some (Inr a) \<Rightarrow>
             cell L (Cell 1 1) = 1
             \<and> min_hops F_s2 L (set (pruned_high_edges E_s2 F_s2 L)) (Cell 1 1) 0
             \<and> cell (flat_mask a) (Cell 1 1) = 1
             \<and> cell (flat_mask a) (Cell 1 1) \<noteq> int 0
         | _ \<Rightarrow> False)
    | _ \<Rightarrow> False)"
proof -
  let ?M0 = "initial_mask empty_raster E_s2"
  from stages_exist[OF dims_s2, where M_in = empty_raster and L_in = empty_raster]
  obtain g L a t where st: "stages E_s2 F_s2 empty_raster empty_raster g L a t"
    and f: "stage_facts E_s2 F_s2 ?M0 g L a t"
    by blast
  from st have lab: "label_flats E_s2 (low_edges_of E_s2 F_s2) 1 (initial_labels empty_raster F_s2)
       = Some (Inr (g, L))"
    and aw: "BuildAwayGradient F_s2 ?M0 (pruned_high_edges E_s2 F_s2 L)
          (replicate (nat g) 0) L = Some (Inr a)"
    unfolding stages_def by blast+
  have z: "\<forall>c. cell ?M0 c = 0" by (simp add: resize_init_def)
  have l: "cell L (Cell 1 1) = 1" using label_s2_corner unfolding lab by simp
  then have "Cell 1 1 \<in> set (pruned_high_edges E_s2 F_s2 L)" by (simp add: high_edges_s2)
  then have h: "hops F_s2 L (set (pruned_high_edges E_s2 F_s2 L)) 0 (Cell 1 1)"
    by (rule hops_seed)
  then have m: "min_hops F_s2 L (set (pruned_high_edges E_s2 F_s2 L)) (Cell 1 1) 0"
    unfolding min_hops_def by simp
  from away_min_hops(3)[OF f z m] have v: "cell (flat_mask a) (Cell 1 1) = 1" by simp
  have "cell L (Cell 1 1) = 1
      \<and> min_hops F_s2 L (set (pruned_high_edges E_s2 F_s2 L)) (Cell 1 1) 0
      \<and> cell (flat_mask a) (Cell 1 1) = 1
      \<and> cell (flat_mask a) (Cell 1 1) \<noteq> int 0"
    using l m v by simp
  then show ?thesis
    by (simp add: lab aw)
qed

text \<open>
  Claim C2, amended. In \<^verbatim>\<open>resolve_flats_barnes\<close> on rasters of equal dimensions, when
  \<^verbatim>\<open>BuildAwayGradient\<close> has returned: a cell has a positive mask exactly when it is
  reached from a high-edge seed (through cells of its label marked \<^verbatim>\<open>NO_FLOW\<close>); such a
  cell has a positive label, and its mask is 1 plus the minimum number of 8-neighbour hops
  from a high-edge seed to it (the seeds have the mask 1); and \<^verbatim>\<open>flat_height\<close> at its
  label is 1 plus the maximum of that distance over the reached cells of the label.
\<close>

theorem away_mask_is_one_plus_min_hops:
  assumes dims: "viewWidth E = viewWidth F" "viewHeight E = viewHeight F"
  shows "\<exists>g L a.
       label_flats E (low_edges_of E F) 1 (initial_labels L_in F) = Some (Inr (g, L))
     \<and> BuildAwayGradient F (initial_mask M_in E) (pruned_high_edges E F L)
          (replicate (nat g) 0) L = Some (Inr a)
     \<and> (\<forall>c. (\<exists>k. hops F L (set (pruned_high_edges E F L)) k c) = (0 < cell (flat_mask a) c))
     \<and> (\<forall>c j. hops F L (set (pruned_high_edges E F L)) j c \<longrightarrow>
           0 < cell L c \<and> cell F c = NO_FLOW
           \<and> (\<exists>k. min_hops F L (set (pruned_high_edges E F L)) c k))
     \<and> (\<forall>c k. min_hops F L (set (pruned_high_edges E F L)) c k \<longrightarrow>
           cell (flat_mask a) c = int k + 1
           \<and> int k + 1 \<le> flat_height a ! nat (cell L c)
           \<and> (\<exists>d j. cell L d = cell L c \<and> min_hops F L (set (pruned_high_edges E F L)) d j
                  \<and> flat_height a ! nat (cell L c) = int j + 1))"
proof -
  let ?M0 = "initial_mask M_in E"
  from stages_exist[OF dims, where M_in = M_in and L_in = L_in]
  obtain g L a t where st: "stages E F M_in L_in g L a t"
    and f: "stage_facts E F ?M0 g L a t"
    by blast
  let ?S = "set (pruned_high_edges E F L)" and ?A = "cell (flat_mask a)"
  from st have lab: "label_flats E (low_edges_of E F) 1 (initial_labels L_in F) = Some (Inr (g, L))"
    and aw: "BuildAwayGradient F ?M0 (pruned_high_edges E F L) (replicate (nat g) 0) L
               = Some (Inr a)"
    unfolding stages_def by blast+
  have z: "\<forall>c. cell ?M0 c = 0" by (simp add: resize_init_def)
  note mh = away_min_hops[OF f z]
  from f have inv: "labelling_inv E g L"
    and Ld: "viewWidth L = viewWidth F" "viewHeight L = viewHeight F"
    unfolding stage_facts_def by blast+
  have ig: "in_grid L = in_grid F" by (rule in_grid_cong[OF Ld])
  from inv have nn: "\<forall>c. 0 \<le> cell L c" unfolding labelling_inv_def by blast
  have 1: "\<forall>c. (\<exists>k. hops F L ?S k c) = (0 < ?A c)" using mh(1) by blast
  have 2: "\<forall>c j. hops F L ?S j c \<longrightarrow>
           0 < cell L c \<and> cell F c = NO_FLOW \<and> (\<exists>k. min_hops F L ?S c k)"
  proof (intro allI impI)
    fix c j assume h: "hops F L ?S j c"
    then have "0 < ?A c" using mh(1)[of c] by blast
    from mh(2)[OF this] hops_high_edges[OF h nn ig]
    show "0 < cell L c \<and> cell F c = NO_FLOW \<and> (\<exists>k. min_hops F L ?S c k)" by blast
  qed
  have 3: "\<forall>c k. min_hops F L ?S c k \<longrightarrow>
           ?A c = int k + 1 \<and> int k + 1 \<le> flat_height a ! nat (cell L c)
           \<and> (\<exists>d j. cell L d = cell L c \<and> min_hops F L ?S d j
                  \<and> flat_height a ! nat (cell L c) = int j + 1)"
  proof (intro allI impI)
    fix c k assume m: "min_hops F L ?S c k"
    have v: "?A c = int k + 1" by (rule mh(3)[OF m])
    then have p: "0 < ?A c" by simp
    have le: "int k + 1 \<le> flat_height a ! nat (cell L c)" using mh(4)[OF p] v by simp
    from mh(5)[OF p] obtain d where d: "cell L d = cell L c" "0 < ?A d"
      "flat_height a ! nat (cell L c) = ?A d" by blast
    have md: "min_hops F L ?S d (nat (?A d - 1))" by (rule mh(2)[OF d(2)])
    have "flat_height a ! nat (cell L c) = int (nat (?A d - 1)) + 1" using d(2,3) by simp
    with d(1) md have "\<exists>d j. cell L d = cell L c \<and> min_hops F L ?S d j
                  \<and> flat_height a ! nat (cell L c) = int j + 1" by blast
    with v le show "?A c = int k + 1 \<and> int k + 1 \<le> flat_height a ! nat (cell L c)
           \<and> (\<exists>d j. cell L d = cell L c \<and> min_hops F L ?S d j
                  \<and> flat_height a ! nat (cell L c) = int j + 1)" by blast
  qed
  show ?thesis
  proof (intro exI conjI)
    show "label_flats E (low_edges_of E F) 1 (initial_labels L_in F) = Some (Inr (g, L))"
      by (rule lab)
    show "BuildAwayGradient F ?M0 (pruned_high_edges E F L) (replicate (nat g) 0) L
               = Some (Inr a)" by (rule aw)
  qed (rule 1 2 3)+
qed

theorem away_mask_is_one_plus_min_hops_witness:
  "viewWidth E_s2 = viewWidth F_s2 \<and> viewHeight E_s2 = viewHeight F_s2
   \<and> (\<exists>g L a.
       label_flats E_s2 (low_edges_of E_s2 F_s2) 1 (initial_labels empty_raster F_s2)
         = Some (Inr (g, L))
     \<and> BuildAwayGradient F_s2 (initial_mask empty_raster E_s2) (pruned_high_edges E_s2 F_s2 L)
          (replicate (nat g) 0) L = Some (Inr a)
     \<and> (\<forall>c. (\<exists>k. hops F_s2 L (set (pruned_high_edges E_s2 F_s2 L)) k c)
              = (0 < cell (flat_mask a) c))
     \<and> (\<forall>c k. min_hops F_s2 L (set (pruned_high_edges E_s2 F_s2 L)) c k \<longrightarrow>
           cell (flat_mask a) c = int k + 1
           \<and> int k + 1 \<le> flat_height a ! nat (cell L c)
           \<and> (\<exists>d j. cell L d = cell L c
                  \<and> min_hops F_s2 L (set (pruned_high_edges E_s2 F_s2 L)) d j
                  \<and> flat_height a ! nat (cell L c) = int j + 1)))"
proof -
  from away_mask_is_one_plus_min_hops[OF dims_s2, where M_in = empty_raster and L_in = empty_raster]
  obtain g L a where
    "label_flats E_s2 (low_edges_of E_s2 F_s2) 1 (initial_labels empty_raster F_s2)
         = Some (Inr (g, L))"
    "BuildAwayGradient F_s2 (initial_mask empty_raster E_s2) (pruned_high_edges E_s2 F_s2 L)
          (replicate (nat g) 0) L = Some (Inr a)"
    "\<forall>c. (\<exists>k. hops F_s2 L (set (pruned_high_edges E_s2 F_s2 L)) k c)
              = (0 < cell (flat_mask a) c)"
    "\<forall>c k. min_hops F_s2 L (set (pruned_high_edges E_s2 F_s2 L)) c k \<longrightarrow>
           cell (flat_mask a) c = int k + 1
           \<and> int k + 1 \<le> flat_height a ! nat (cell L c)
           \<and> (\<exists>d j. cell L d = cell L c
                  \<and> min_hops F_s2 L (set (pruned_high_edges E_s2 F_s2 L)) d j
                  \<and> flat_height a ! nat (cell L c) = int j + 1)"
    by (elim exE conjE) (rule that; assumption)
  with dims_s2 show ?thesis by (intro conjI exI)
qed


section \<open>The value written by BuildTowardsCombinedGradient\<close>

text \<open>
  Claim C3. In \<^verbatim>\<open>resolve_flats_barnes\<close> on rasters of equal dimensions, let \<open>A\<close> be the
  mask and \<open>H\<close> the vector \<^verbatim>\<open>flat_height\<close> that \<^verbatim>\<open>BuildAwayGradient\<close> returns; \<open>A\<close>
  is nowhere negative and the sign flip turns it into \<open>- A\<close>. In every state \<open>s\<close> that the
  loop of \<^verbatim>\<open>BuildTowardsCombinedGradient\<close> passes through, when the cell \<open>c\<close> at the
  front of the queue is not the marker and its mask is not positive: that mask is
  \<open>- A(c)\<close>; the loop body writes \<open>(H[L(c)] + M(c)) + 2 * loops\<close> to it when
  \<open>M(c) \<noteq> 0\<close> and \<open>2 * loops\<close> when \<open>M(c) = 0\<close>; and this is the mask of \<open>c\<close> when the
  procedure returns, that is \<open>2 * loops + (H[L(c)] - A(c))\<close> when \<open>A(c) \<noteq> 0\<close> and
  \<open>2 * loops\<close> otherwise. Every cell with a positive final mask has a value of that form
  for a wavefront depth \<open>B \<ge> 1\<close>.
\<close>

theorem towards_assigned_value:
  assumes dims: "viewWidth E = viewWidth F" "viewHeight E = viewHeight F"
  shows "\<exists>g L a t.
       label_flats E (low_edges_of E F) 1 (initial_labels L_in F) = Some (Inr (g, L))
     \<and> BuildAwayGradient F (initial_mask M_in E) (pruned_high_edges E F L)
          (replicate (nat g) 0) L = Some (Inr a)
     \<and> BuildTowardsCombinedGradient F (flat_mask a) (low_edges_of E F) (flat_height a) L
          = Some (Inr t)
     \<and> (\<forall>c. 0 \<le> cell (flat_mask a) c
            \<and> cell (negate_mask (flat_mask a)) c = - cell (flat_mask a) c)
     \<and> (\<forall>s c rest.
          steps bfs_cont (towards_body F L)
            (towards_start (low_edges_of E F) (flat_mask a) (flat_height a)) s
          \<and> edges s = c # rest \<and> cx c \<noteq> -1 \<and> \<not> 0 < cell (flat_mask s) c
          \<longrightarrow> cell (flat_mask s) c = - cell (flat_mask a) c
            \<and> 1 \<le> loops s
            \<and> (\<exists>s'. towards_body F L s = Inr s'
                  \<and> cell (flat_mask s') c =
                      (if cell (flat_mask s) c \<noteq> 0
                       then (flat_height a ! nat (cell L c) + cell (flat_mask s) c) + 2 * loops s
                       else 2 * loops s))
            \<and> cell (flat_mask t) c =
                (if cell (flat_mask a) c \<noteq> 0
                 then 2 * loops s + (flat_height a ! nat (cell L c) - cell (flat_mask a) c)
                 else 2 * loops s))
     \<and> (\<forall>c. 0 < cell (flat_mask t) c \<longrightarrow>
          (\<exists>B. 1 \<le> B
             \<and> cell (flat_mask t) c =
                 (if cell (flat_mask a) c \<noteq> 0
                  then 2 * B + (flat_height a ! nat (cell L c) - cell (flat_mask a) c)
                  else 2 * B)))"
proof -
  let ?M0 = "initial_mask M_in E"
  from stages_exist[OF dims, where M_in = M_in and L_in = L_in]
  obtain g L a t where sg: "stages E F M_in L_in g L a t"
    and f: "stage_facts E F ?M0 g L a t"
    by blast
  let ?A = "cell (flat_mask a)" and ?T = "cell (flat_mask t)" and ?H = "flat_height a"
  let ?M1 = "negate_mask (flat_mask a)"
  let ?start = "towards_start (low_edges_of E F) (flat_mask a) (flat_height a)"
  from sg have lab: "label_flats E (low_edges_of E F) 1 (initial_labels L_in F) = Some (Inr (g, L))"
    and aw: "BuildAwayGradient F ?M0 (pruned_high_edges E F L) (replicate (nat g) 0) L
               = Some (Inr a)"
    and tw: "BuildTowardsCombinedGradient F (flat_mask a) (low_edges_of E F) ?H L = Some (Inr t)"
    unfolding stages_def by blast+
  have z: "\<forall>c. cell ?M0 c = 0" by (simp add: resize_init_def)
  from f have a1: "away_inv1 L ?M0 (nat g) a"
    and Ld: "viewWidth L = viewWidth F" "viewHeight L = viewHeight F"
    and t2: "tow_inv2 F L ?H (set (low_edges_of E F)) ?M1 t"
    and te: "cur_part (edges t) = []" "nxt_part (edges t) = []"
    unfolding stage_facts_def by blast+
  note am = away_mask_facts[OF f z]
  have neg: "cell ?M1 c = - ?A c" for c
  proof (cases "in_grid L c")
    case True
    then show ?thesis by (rule am(4))
  next
    case False
    then have "\<not> 0 < ?A c" using am(2)[of c] by blast
    with am(1)[of c] am(5)[OF False] show ?thesis by simp
  qed
  have i0: "tow_inv1 L ?M1 ?H ?start" by (rule towards_start_inv[OF a1 Ld])
  have run: "while_loop bfs_cont (towards_body F L) ?start = Some (Inr t)"
    using tw by (simp add: BuildTowardsCombinedGradient_def)
  have 1: "\<forall>c. 0 \<le> ?A c \<and> cell ?M1 c = - ?A c" using am(1) neg by blast
  have 2: "\<forall>s c rest.
          steps bfs_cont (towards_body F L) ?start s
          \<and> edges s = c # rest \<and> cx c \<noteq> -1 \<and> \<not> 0 < cell (flat_mask s) c
          \<longrightarrow> cell (flat_mask s) c = - ?A c
            \<and> 1 \<le> loops s
            \<and> (\<exists>s'. towards_body F L s = Inr s'
                  \<and> cell (flat_mask s') c =
                      (if cell (flat_mask s) c \<noteq> 0
                       then (?H ! nat (cell L c) + cell (flat_mask s) c) + 2 * loops s
                       else 2 * loops s))
            \<and> ?T c =
                (if ?A c \<noteq> 0 then 2 * loops s + (?H ! nat (cell L c) - ?A c) else 2 * loops s)"
  proof (intro allI impI, elim conjE)
    fix s c rest
    assume st: "steps bfs_cont (towards_body F L) ?start s"
      and q: "edges s = c # rest" and c: "cx c \<noteq> -1" and np: "\<not> 0 < cell (flat_mask s) c"
    note af = towards_assigned_final[OF i0 run st q c np]
    have m: "cell (flat_mask s) c = - ?A c" using af(1) neg[of c] by simp
    have b: "\<exists>s'. towards_body F L s = Inr s'
                  \<and> cell (flat_mask s') c =
                      (if cell (flat_mask s) c \<noteq> 0
                       then (?H ! nat (cell L c) + cell (flat_mask s) c) + 2 * loops s
                       else 2 * loops s)"
      using af(5) unfolding towards_value_def .
    have v: "?T c =
                (if ?A c \<noteq> 0 then 2 * loops s + (?H ! nat (cell L c) - ?A c) else 2 * loops s)"
      using af(6) m unfolding towards_value_def by simp
    from m af(3) b v
    show "cell (flat_mask s) c = - ?A c
            \<and> 1 \<le> loops s
            \<and> (\<exists>s'. towards_body F L s = Inr s'
                  \<and> cell (flat_mask s') c =
                      (if cell (flat_mask s) c \<noteq> 0
                       then (?H ! nat (cell L c) + cell (flat_mask s) c) + 2 * loops s
                       else 2 * loops s))
            \<and> ?T c =
                (if ?A c \<noteq> 0 then 2 * loops s + (?H ! nat (cell L c) - ?A c) else 2 * loops s)"
      by (intro conjI)
  qed
  have 3: "\<forall>c. 0 < ?T c \<longrightarrow>
          (\<exists>B. 1 \<le> B
             \<and> ?T c = (if ?A c \<noteq> 0 then 2 * B + (?H ! nat (cell L c) - ?A c) else 2 * B))"
  proof (intro allI impI)
    fix c assume "0 < ?T c"
    from tow_final(1)[OF t2 te this] obtain B where
      B: "1 \<le> B" "?T c = towards_value ?H L c (cell ?M1 c) B" by blast
    have "?T c = (if ?A c \<noteq> 0 then 2 * B + (?H ! nat (cell L c) - ?A c) else 2 * B)"
      using B(2) neg[of c] unfolding towards_value_def by simp
    with B(1) show "\<exists>B. 1 \<le> B
             \<and> ?T c = (if ?A c \<noteq> 0 then 2 * B + (?H ! nat (cell L c) - ?A c) else 2 * B)"
      by blast
  qed
  show ?thesis
  proof (intro exI conjI)
    show "label_flats E (low_edges_of E F) 1 (initial_labels L_in F) = Some (Inr (g, L))"
      by (rule lab)
    show "BuildAwayGradient F ?M0 (pruned_high_edges E F L) (replicate (nat g) 0) L
               = Some (Inr a)" by (rule aw)
    show "BuildTowardsCombinedGradient F (flat_mask a) (low_edges_of E F) ?H L = Some (Inr t)"
      by (rule tw)
  qed (rule 1 2 3)+
qed

theorem towards_assigned_value_witness:
  "viewWidth E_s2 = viewWidth F_s2 \<and> viewHeight E_s2 = viewHeight F_s2
   \<and> (\<exists>g L a t.
       label_flats E_s2 (low_edges_of E_s2 F_s2) 1 (initial_labels empty_raster F_s2)
         = Some (Inr (g, L))
     \<and> BuildAwayGradient F_s2 (initial_mask empty_raster E_s2) (pruned_high_edges E_s2 F_s2 L)
          (replicate (nat g) 0) L = Some (Inr a)
     \<and> BuildTowardsCombinedGradient F_s2 (flat_mask a) (low_edges_of E_s2 F_s2) (flat_height a) L
          = Some (Inr t)
     \<and> steps bfs_cont (towards_body F_s2 L)
         (towards_start (low_edges_of E_s2 F_s2) (flat_mask a) (flat_height a))
         (towards_start (low_edges_of E_s2 F_s2) (flat_mask a) (flat_height a))
     \<and> edges (towards_start (low_edges_of E_s2 F_s2) (flat_mask a) (flat_height a))
         = Cell 3 1 # [Cell 3 2, Cell 3 3, iteration_marker]
     \<and> cx (Cell 3 1) \<noteq> -1
     \<and> \<not> 0 < cell (flat_mask (towards_start (low_edges_of E_s2 F_s2) (flat_mask a)
                                  (flat_height a))) (Cell 3 1)
     \<and> cell (flat_mask t) (Cell 3 1) =
         (if cell (flat_mask a) (Cell 3 1) \<noteq> 0
          then 2 * 1 + (flat_height a ! nat (cell L (Cell 3 1)) - cell (flat_mask a) (Cell 3 1))
          else 2 * 1))"
proof -
  from towards_assigned_value[OF dims_s2, where M_in = empty_raster and L_in = empty_raster]
  obtain g L a t where
    lab: "label_flats E_s2 (low_edges_of E_s2 F_s2) 1 (initial_labels empty_raster F_s2)
         = Some (Inr (g, L))"
    and aw: "BuildAwayGradient F_s2 (initial_mask empty_raster E_s2)
          (pruned_high_edges E_s2 F_s2 L) (replicate (nat g) 0) L = Some (Inr a)"
    and tw: "BuildTowardsCombinedGradient F_s2 (flat_mask a) (low_edges_of E_s2 F_s2)
          (flat_height a) L = Some (Inr t)"
    and nn: "\<forall>c. 0 \<le> cell (flat_mask a) c
            \<and> cell (negate_mask (flat_mask a)) c = - cell (flat_mask a) c"
    and asg: "\<forall>s c rest.
          steps bfs_cont (towards_body F_s2 L)
            (towards_start (low_edges_of E_s2 F_s2) (flat_mask a) (flat_height a)) s
          \<and> edges s = c # rest \<and> cx c \<noteq> -1 \<and> \<not> 0 < cell (flat_mask s) c
          \<longrightarrow> cell (flat_mask s) c = - cell (flat_mask a) c
            \<and> 1 \<le> loops s
            \<and> (\<exists>s'. towards_body F_s2 L s = Inr s'
                  \<and> cell (flat_mask s') c =
                      (if cell (flat_mask s) c \<noteq> 0
                       then (flat_height a ! nat (cell L c) + cell (flat_mask s) c) + 2 * loops s
                       else 2 * loops s))
            \<and> cell (flat_mask t) c =
                (if cell (flat_mask a) c \<noteq> 0
                 then 2 * loops s + (flat_height a ! nat (cell L c) - cell (flat_mask a) c)
                 else 2 * loops s)"
    by (elim exE conjE) (rule that; assumption)
  let ?s = "towards_start (low_edges_of E_s2 F_s2) (flat_mask a) (flat_height a)"
  have s: "steps bfs_cont (towards_body F_s2 L) ?s ?s" by (rule steps_refl)
  have q: "edges ?s = Cell 3 1 # [Cell 3 2, Cell 3 3, iteration_marker]"
    by (simp add: low_edges_s2)
  have c: "cx (Cell 3 1) \<noteq> -1" by simp
  have np: "\<not> 0 < cell (flat_mask ?s) (Cell 3 1)"
    using spec[OF nn, of "Cell 3 1"] by simp
  from asg s q c np have "cell (flat_mask t) (Cell 3 1) =
         (if cell (flat_mask a) (Cell 3 1) \<noteq> 0
          then 2 * loops ?s + (flat_height a ! nat (cell L (Cell 3 1))
                 - cell (flat_mask a) (Cell 3 1))
          else 2 * loops ?s)"
    by blast
  then have v: "cell (flat_mask t) (Cell 3 1) =
         (if cell (flat_mask a) (Cell 3 1) \<noteq> 0
          then 2 * 1 + (flat_height a ! nat (cell L (Cell 3 1)) - cell (flat_mask a) (Cell 3 1))
          else 2 * 1)"
    by simp
  from dims_s2 lab aw tw s q c np v show ?thesis by (intro conjI exI)
qed


section \<open>The precision of the steps of d8_flats_alter_dem\<close>

text \<open>
  Claim C5 says that for \<^verbatim>\<open>float\<close> and for \<^verbatim>\<open>double\<close> elevations
  \<^verbatim>\<open>d8_flats_alter_dem\<close> raises a labelled interior cell by \<open>M(c)\<close> steps to the next
  representable number of the elevation type. The source calls \<^verbatim>\<open>nextafterf\<close> for every
  elevation type. On the raster \<open>E_one\<close> of the \<^verbatim>\<open>double\<close> 1.0, whose centre has the
  mask 1, the centre becomes \<open>1 + 2 ^ -23\<close>, the \<^verbatim>\<open>float\<close> after 1.0, and not
  \<open>1 + 2 ^ -52\<close>, the \<^verbatim>\<open>double\<close> after 1.0.
\<close>

theorem alter_dem_double_steps_by_float:
  "cell (fst (d8_flats_alter_dem 53 M_one L_one E_one)) (Cell 1 1)
     = \<lparr>mant = 2 ^ 52 + 2 ^ 29, expo = -52\<rparr>
   \<and> (next_up 53 ^^ nat (cell M_one (Cell 1 1))) (cell E_one (Cell 1 1))
     = \<lparr>mant = 2 ^ 52 + 1, expo = -52\<rparr>
   \<and> cell (fst (d8_flats_alter_dem 53 M_one L_one E_one)) (Cell 1 1)
     \<noteq> (next_up 53 ^^ nat (cell M_one (Cell 1 1))) (cell E_one (Cell 1 1))"
proof -
  have m: "cell M_one (Cell 1 1) = 1" and l: "cell L_one (Cell 1 1) = 1"
    by (simp_all add: M_one_def L_one_def raster_def)
  have i: "Cell 1 1 \<in> set (interior_cells M_one)"
    by (simp add: set_interior_cells M_one_def raster_def)
  have e: "cell E_one (Cell 1 1) = one_double" by (simp add: E_one_def)
  have r: "raise 53 one_double = \<lparr>mant = 2 ^ 52 + 2 ^ 29, expo = -52\<rparr>"
    by (simp add: raise_def narrow_def widen_def nextafterf_def next_up_def one_double_def Let_def)
  have n: "next_up 53 one_double = \<lparr>mant = 2 ^ 52 + 1, expo = -52\<rparr>"
    by (simp add: next_up_def one_double_def)
  have a: "cell (fst (d8_flats_alter_dem 53 M_one L_one E_one)) (Cell 1 1)
             = \<lparr>mant = 2 ^ 52 + 2 ^ 29, expo = -52\<rparr>"
    by (simp add: d8_flats_alter_dem_cell i l m e r)
  have b: "(next_up 53 ^^ nat (cell M_one (Cell 1 1))) (cell E_one (Cell 1 1))
             = \<lparr>mant = 2 ^ 52 + 1, expo = -52\<rparr>"
    by (simp add: m e n)
  show ?thesis unfolding a b by simp
qed

end
